theory Spec2Isabelle
  imports Main "HOL-Library.Char_ord" "HOL-Library.List_Lexorder"
begin

section \<open>The index of perun: a shallow embedding of \<open>perun/logic/index.py\<close>\<close>

text \<open>
  A Python \<open>str\<close> is modelled by its UTF-8 bytes, a \<open>string\<close> of HOL; the lexicographic
  order of HOL-Library on such byte strings is the order of Python on the strings they
  encode. The content of a file is a \<open>string\<close> too, one \<open>char\<close> a byte.
\<close>

subsection \<open>Constants\<close>

definition INDEX_ENTRIES_START_OFFSET :: nat where
  "INDEX_ENTRIES_START_OFFSET = 12"

definition INDEX_NUMBER_OF_ENTRIES_OFFSET :: nat where
  "INDEX_NUMBER_OF_ENTRIES_OFFSET = 8"

definition INDEX_MAGIC_PREFIX :: string where
  "INDEX_MAGIC_PREFIX = ''pidx''"

definition INDEX_VERSION :: int where
  "INDEX_VERSION = 2"

datatype IndexVersion = SlowLorris | FastSloth

fun version_value :: "IndexVersion \<Rightarrow> int" where
  "version_value SlowLorris = 1"
| "version_value FastSloth = 2"

subsection \<open>Exceptions and log events\<close>

datatype error =
    MalformedIndexFileException string
  | EntryNotFoundException string
  | StructError
  | ValueError
  | OSError
  | ProfileLoadError
  | ZlibError

text \<open>
  \<open>StructError\<close> is \<open>struct.error\<close> (packing a number out of range, unpacking a short
  read), \<open>ValueError\<close> the error of \<open>bytearray.fromhex\<close>, of \<open>IndexVersion(n)\<close> and of
  parsing a time, \<open>OSError\<close> a seek to a negative position, \<open>ProfileLoadError\<close> whatever
  the object store raises when a profile cannot be loaded, \<open>ZlibError\<close> is \<open>zlib.error\<close>.
\<close>

fun exception_class :: "error \<Rightarrow> string" where
  "exception_class (MalformedIndexFileException _) = ''MalformedIndexFileException''"
| "exception_class (EntryNotFoundException _) = ''EntryNotFoundException''"
| "exception_class StructError = ''struct.error''"
| "exception_class ValueError = ''ValueError''"
| "exception_class OSError = ''OSError''"
| "exception_class ProfileLoadError = ''ProfileLoadError''"
| "exception_class ZlibError = ''zlib.error''"

datatype log_event =
    LogError string
  | LogWarn string
  | MajorInfo string
  | MinorInfo string
  | MinorSuccess string string
  | MinorFail string string
  | MinorStatus string nat

text \<open>\<open>IndexVersion(n)\<close>: the enum member of value \<open>n\<close>, a \<open>ValueError\<close> when there is none.\<close>

definition IndexVersion_of :: "int \<Rightarrow> error + IndexVersion" where
  "IndexVersion_of n =
     (if n = 1 then Inr SlowLorris else if n = 2 then Inr FastSloth else Inl ValueError)"

definition get_older_version :: "IndexVersion \<Rightarrow> error + IndexVersion" where
  "get_older_version index_version = IndexVersion_of (version_value index_version - 1)"

subsection \<open>Binary file handles\<close>

record handle =
  content :: string
  pos :: nat

definition open_handle :: "string \<Rightarrow> handle" where
  "open_handle bytes = \<lparr>content = bytes, pos = 0\<rparr>"

definition seek :: "nat \<Rightarrow> handle \<Rightarrow> handle" where
  "seek n h = h\<lparr>pos := n\<rparr>"

definition seek_end :: "handle \<Rightarrow> handle" where
  "seek_end h = h\<lparr>pos := length (content h)\<rparr>"

definition tell :: "handle \<Rightarrow> nat" where
  "tell h = pos h"

text \<open>\<open>read(n)\<close> returns the bytes there are, at most \<open>n\<close>, and moves the cursor behind them.\<close>

definition read :: "nat \<Rightarrow> handle \<Rightarrow> string \<times> handle" where
  "read n h =
     (let bytes = take n (drop (pos h) (content h))
      in (bytes, h\<lparr>pos := pos h + length bytes\<rparr>))"

definition read_all :: "handle \<Rightarrow> string \<times> handle" where
  "read_all h =
     (let bytes = drop (pos h) (content h)
      in (bytes, h\<lparr>pos := pos h + length bytes\<rparr>))"

text \<open>
  \<open>write(bytes)\<close>, here \<open>write_bytes\<close>, overwrites from the cursor on and extends the file
  where it has to; a cursor behind the end of the file leaves a gap of zero bytes. Writing
  no bytes changes nothing.
\<close>

definition write_bytes :: "string \<Rightarrow> handle \<Rightarrow> handle" where
  "write_bytes bytes h =
     (if bytes = [] then h
      else \<lparr>content = take (pos h) (content h)
                      @ replicate (pos h - length (content h)) (CHR 0x00)
                      @ bytes
                      @ drop (pos h + length bytes) (content h),
            pos = pos h + length bytes\<rparr>)"

text \<open>\<open>truncate(size)\<close> resizes the file and leaves the cursor; \<open>truncate()\<close>, here \<open>truncate_here\<close>, cuts at the cursor.\<close>

definition truncate_to :: "nat \<Rightarrow> handle \<Rightarrow> handle" where
  "truncate_to size' h =
     h\<lparr>content := take size' (content h)
                   @ replicate (size' - length (content h)) (CHR 0x00)\<rparr>"

definition truncate_here :: "handle \<Rightarrow> handle" where
  "truncate_here h = truncate_to (tell h) h"

subsection \<open>\<open>struct\<close>, \<open>binascii\<close> and \<open>bytearray.fromhex\<close>\<close>

definition le32 :: "nat \<Rightarrow> string" where
  "le32 n = [char_of n, char_of (n div 256), char_of (n div 65536), char_of (n div 16777216)]"

definition un_le32 :: "string \<Rightarrow> nat" where
  "un_le32 bytes =
     of_char (bytes ! 0) + 256 * of_char (bytes ! 1) + 65536 * of_char (bytes ! 2)
       + 16777216 * of_char (bytes ! 3)"

text \<open>\<open>struct.pack("i", n)\<close>: a signed 32-bit number, little-endian.\<close>

definition pack_i :: "int \<Rightarrow> error + string" where
  "pack_i n =
     (if - 2147483648 \<le> n \<and> n < 2147483648 then Inr (le32 (nat (n mod 4294967296)))
      else Inl StructError)"

text \<open>\<open>struct.pack("<I", n)\<close>: an unsigned 32-bit number, little-endian.\<close>

definition pack_I :: "int \<Rightarrow> error + string" where
  "pack_I n =
     (if 0 \<le> n \<and> n < 4294967296 then Inr (le32 (nat n)) else Inl StructError)"

definition hexdigit :: "nat \<Rightarrow> char" where
  "hexdigit n = ''0123456789abcdef'' ! n"

definition hexlify :: "string \<Rightarrow> string" where
  "hexlify bytes =
     concat (map (\<lambda>b. [hexdigit (of_char b div 16), hexdigit (of_char b mod 16)]) bytes)"

definition hexval :: "char \<Rightarrow> nat option" where
  "hexval c =
     (let n = (of_char c :: nat) in
      if 48 \<le> n \<and> n \<le> 57 then Some (n - 48)
      else if 97 \<le> n \<and> n \<le> 102 then Some (n - 87)
      else if 65 \<le> n \<and> n \<le> 70 then Some (n - 55)
      else None)"

definition is_space :: "char \<Rightarrow> bool" where
  "is_space c = ((of_char c :: nat) \<in> {9, 10, 11, 12, 13, 32})"

text \<open>
  \<open>bytearray.fromhex\<close>: pairs of hexadecimal digits of either case, white space skipped
  between the pairs, a \<open>ValueError\<close> on anything else.
\<close>

fun fromhex :: "string \<Rightarrow> error + string" where
  "fromhex [] = Inr []"
| "fromhex [c] = (if is_space c then Inr [] else Inl ValueError)"
| "fromhex (c # d # cs) =
     (if is_space c then fromhex (d # cs)
      else (case (hexval c, hexval d) of
              (Some a, Some b) \<Rightarrow>
                (case fromhex cs of
                   Inl e \<Rightarrow> Inl e
                 | Inr bytes \<Rightarrow> Inr (char_of (16 * a + b) # bytes))
            | _ \<Rightarrow> Inl ValueError))"


subsection \<open>The helpers of \<open>perun.logic.store\<close> and \<open>perun.utils.timestamps\<close>\<close>

text \<open>
  Modelled from the spec: \<open>store.read_int_from_handle\<close>, which is not among the sources. The
  spec gives the header fields as \<open>uint32\<close> and all integers as little-endian, four bytes;
  unpacking fewer than four bytes is a \<open>struct.error\<close>.
\<close>

definition read_int_from_handle :: "handle \<Rightarrow> error + (nat \<times> handle)" where
  "read_int_from_handle h =
     (case read 4 h of (bytes, h') \<Rightarrow>
        if length bytes < 4 then Inl StructError else Inr (un_le32 bytes, h'))"

text \<open>
  Modelled from the spec: \<open>store.read_char_from_handle\<close>, not among the sources. The path is
  read byte by byte up to a NUL; at the end of the file there is no byte to unpack.
\<close>

definition read_char_from_handle :: "handle \<Rightarrow> error + (char \<times> handle)" where
  "read_char_from_handle h =
     (case read 1 h of (bytes, h') \<Rightarrow>
        (case bytes of [] \<Rightarrow> Inl StructError | byte # _ \<Rightarrow> Inr (byte, h')))"

text \<open>
  Modelled from the spec: \<open>store.write_string_to_handle\<close> and \<open>store.read_string_from_handle\<close>,
  not among the sources: a string is stored length-prefixed, the length in four bytes.
\<close>

definition write_string_to_handle :: "handle \<Rightarrow> string \<Rightarrow> error + handle" where
  "write_string_to_handle h s =
     (case pack_I (int (length s)) of
        Inl e \<Rightarrow> Inl e
      | Inr binary_len \<Rightarrow> Inr (write_bytes s (write_bytes binary_len h)))"

definition read_string_from_handle :: "handle \<Rightarrow> error + (string \<times> handle)" where
  "read_string_from_handle h =
     (case read_int_from_handle h of
        Inl e \<Rightarrow> Inl e
      | Inr (content_len, h') \<Rightarrow> Inr (read content_len h'))"

text \<open>
  Modelled from the spec: \<open>store.write_list_to_handle\<close> and \<open>store.read_list_from_handle\<close>,
  not among the sources: a list of strings is stored as its count in four bytes and that
  many length-prefixed strings.
\<close>

fun write_strings :: "handle \<Rightarrow> string list \<Rightarrow> error + handle" where
  "write_strings h [] = Inr h"
| "write_strings h (s # ss) =
     (case write_string_to_handle h s of
        Inl e \<Rightarrow> Inl e
      | Inr h' \<Rightarrow> write_strings h' ss)"

definition write_list_to_handle :: "handle \<Rightarrow> string list \<Rightarrow> error + handle" where
  "write_list_to_handle h list_content =
     (case pack_I (int (length list_content)) of
        Inl e \<Rightarrow> Inl e
      | Inr binary_count \<Rightarrow> write_strings (write_bytes binary_count h) list_content)"

fun read_strings :: "nat \<Rightarrow> handle \<Rightarrow> error + (string list \<times> handle)" where
  "read_strings 0 h = Inr ([], h)"
| "read_strings (Suc n) h =
     (case read_string_from_handle h of
        Inl e \<Rightarrow> Inl e
      | Inr (s, h') \<Rightarrow>
          (case read_strings n h' of
             Inl e \<Rightarrow> Inl e
           | Inr (ss, h'') \<Rightarrow> Inr (s # ss, h'')))"

definition read_list_from_handle :: "handle \<Rightarrow> error + (string list \<times> handle)" where
  "read_list_from_handle h =
     (case read_int_from_handle h of
        Inl e \<Rightarrow> Inl e
      | Inr (n, h') \<Rightarrow> read_strings n h')"

text \<open>
  Modelled from the spec: \<open>timestamps.write_timestamp\<close> and
  \<open>timestamps.read_timestamp_from_file\<close>, not among the sources: the time of a record is a
  timestamp in four bytes.
\<close>

definition write_timestamp :: "handle \<Rightarrow> int \<Rightarrow> error + handle" where
  "write_timestamp h timestamp =
     (case pack_I timestamp of
        Inl e \<Rightarrow> Inl e
      | Inr binary_timestamp \<Rightarrow> Inr (write_bytes binary_timestamp h))"

definition read_timestamp_from_file :: "handle \<Rightarrow> error + (nat \<times> handle)" where
  "read_timestamp_from_file h = read_int_from_handle h"

text \<open>
  What the index takes from outside and the spec leaves open is a parameter: the two
  conversions between a timestamp and its string (\<open>timestamps.timestamp_to_str\<close>,
  \<open>timestamps.str_to_timestamp\<close>, whose result is taken rounded, as \<open>write_timestamp\<close>
  stores it, and which may raise), the test \<open>store.is_sha1\<close>, and the object store, which
  loads the profile of a checksum (\<open>store.split_object_name\<close> and
  \<open>store.load_profile_from_file\<close>) or raises.
\<close>

record profile =
  header_type :: string
  header_cmd :: string
  header_workload :: "string option"
  collector_info_name :: string
  postprocessor_names :: "string list"

record externals =
  timestamp_to_str :: "nat \<Rightarrow> string"
  str_to_timestamp :: "string \<Rightarrow> error + int"
  is_sha1 :: "string \<Rightarrow> bool"
  load_profile :: "string \<Rightarrow> error + profile"

subsection \<open>Index entries\<close>

text \<open>
  Both classes have the same attributes; \<open>version\<close> is the class attribute that tells them
  apart, and \<open>__eq__\<close>, which compares the instance dictionaries, does not look at it.
\<close>

record entry =
  version :: IndexVersion
  time :: string
  checksum :: string
  path :: string
  offset :: int
  type :: string
  cmd :: string
  workload :: string
  collector :: string
  postprocessors :: "string list"

definition BasicIndexEntry :: "string \<Rightarrow> string \<Rightarrow> string \<Rightarrow> int \<Rightarrow> entry" where
  "BasicIndexEntry time' checksum' path' offset' =
     \<lparr>version = SlowLorris, time = time', checksum = checksum', path = path',
      offset = offset', type = ''??'', cmd = ''??'', workload = ''??'', collector = ''??'',
      postprocessors = []\<rparr>"

definition ExtendedIndexEntry ::
  "string \<Rightarrow> string \<Rightarrow> string \<Rightarrow> int \<Rightarrow> profile \<Rightarrow> entry" where
  "ExtendedIndexEntry time' checksum' path' offset' profile' =
     \<lparr>version = FastSloth, time = time', checksum = checksum', path = path',
      offset = offset', type = header_type profile', cmd = header_cmd profile',
      workload = (case header_workload profile' of None \<Rightarrow> [] | Some w \<Rightarrow> w),
      collector = collector_info_name profile',
      postprocessors = postprocessor_names profile'\<rparr>"

definition entry_eq :: "entry \<Rightarrow> entry \<Rightarrow> bool" where
  "entry_eq a b \<longleftrightarrow>
     time a = time b \<and> checksum a = checksum b \<and> path a = path b \<and> offset a = offset b
     \<and> type a = type b \<and> cmd a = cmd b \<and> workload a = workload b
     \<and> collector a = collector b \<and> postprocessors a = postprocessors b"

text \<open>The loop of \<open>BasicIndexEntry.read_from\<close> that reads the path up to its NUL.\<close>

function read_path :: "string \<Rightarrow> handle \<Rightarrow> error + (string \<times> handle)" where
  "read_path file_path h =
     (case read_char_from_handle h of
        Inl e \<Rightarrow> Inl e
      | Inr (byte, h') \<Rightarrow>
          if byte = CHR 0x00 then Inr (file_path, h') else read_path (file_path @ [byte]) h')"
  by pat_completeness auto
termination
proof (relation "measure (\<lambda>(file_path, h). length (content h) - pos h)")
  show "wf (measure (\<lambda>(file_path, h). length (content h) - pos h))"
    by simp
next
  fix file_path :: string and h x2 x y
  assume "read_char_from_handle h = Inr x2" and "(x, y) = x2"
  then have r: "read 1 h = (x # tl (fst (read 1 h)), y)"
    by (auto simp: read_char_from_handle_def split: prod.splits list.splits)
  define n where "n = length (fst (read 1 h))"
  have lt: "pos h < length (content h)"
  proof (rule ccontr)
    assume "\<not> pos h < length (content h)"
    then have "fst (read 1 h) = []"
      by (simp add: read_def)
    with r show False
      by (metis fst_conv list.distinct(1))
  qed
  from r have p: "pos y = pos h + n" and c: "content y = content h"
    by (auto simp: read_def Let_def n_def)
  from r have n: "0 < n"
    unfolding n_def by (metis fst_conv length_greater_0_conv list.distinct(1))
  have "length (content y) - pos y < length (content h) - pos h"
    unfolding c p using n lt by arith
  then show "((file_path @ [x], y), file_path, h)
      \<in> measure (\<lambda>(file_path, h). length (content h) - pos h)"
    by simp
qed

declare read_path.simps [simp del]

text \<open>Python's \<open>str\<close> of a number, for the messages.\<close>

function str_nat :: "nat \<Rightarrow> string" where
  "str_nat n =
     (if n < 10 then [''0123456789'' ! n] else str_nat (n div 10) @ [''0123456789'' ! (n mod 10)])"
  by pat_completeness auto
termination
  by (relation "measure (\<lambda>n. n)") auto

declare str_nat.simps [simp del]

definition str_int :: "int \<Rightarrow> string" where
  "str_int i = (if i < 0 then CHR ''-'' # str_nat (nat (- i)) else str_nat (nat i))"

text \<open>
  \<open>BasicIndexEntry.read_from\<close>. Called with a version newer than its own it reports an
  internal error through \<open>perun_log.error\<close> and reads on. What it logs is given apart from
  what it reads, by \<open>read_from_events\<close>; the calls of this module are all for the version
  \<open>SlowLorris\<close>, for which nothing is logged.
\<close>

definition read_from_events :: "IndexVersion \<Rightarrow> log_event list" where
  "read_from_events index_version =
     (if version_value SlowLorris < version_value index_version
      then [LogError (''internal error: called read_from() for BasicIndexEntry ''
                      @ str_int (version_value index_version))]
      else [])"

definition BasicIndexEntry_read_from ::
  "externals \<Rightarrow> handle \<Rightarrow> IndexVersion \<Rightarrow> error + (entry \<times> handle)" where
  "BasicIndexEntry_read_from env h index_version =
     (let file_offset = tell h in
      case read_timestamp_from_file h of
        Inl e \<Rightarrow> Inl e
      | Inr (timestamp, h1) \<Rightarrow>
          (let file_time = timestamp_to_str env timestamp in
           case read 20 h1 of (sha_bytes, h2) \<Rightarrow>
             (let file_sha = hexlify sha_bytes in
              case read_path [] h2 of
                Inl e \<Rightarrow> Inl e
              | Inr (file_path, h3) \<Rightarrow>
                  Inr (BasicIndexEntry file_time file_sha file_path (int file_offset), h3))))"

definition BasicIndexEntry_write_to :: "externals \<Rightarrow> entry \<Rightarrow> handle \<Rightarrow> error + handle" where
  "BasicIndexEntry_write_to env self h =
     (case str_to_timestamp env (time self) of
        Inl e \<Rightarrow> Inl e
      | Inr timestamp \<Rightarrow>
          (case write_timestamp h timestamp of
             Inl e \<Rightarrow> Inl e
           | Inr h1 \<Rightarrow>
               (case fromhex (checksum self) of
                  Inl e \<Rightarrow> Inl e
                | Inr sha_bytes \<Rightarrow>
                    Inr (write_bytes [CHR 0x00]
                          (write_bytes (path self) (write_bytes sha_bytes h1))))))"

definition read_from_older_index ::
  "externals \<Rightarrow> handle \<Rightarrow> IndexVersion \<Rightarrow> error + (entry \<times> handle)" where
  "read_from_older_index env h index_version =
     (case BasicIndexEntry_read_from env h index_version of
        Inl e \<Rightarrow> Inl e
      | Inr (basic_entry, h') \<Rightarrow>
          (case load_profile env (checksum basic_entry) of
             Inl e \<Rightarrow> Inl e
           | Inr profile' \<Rightarrow>
               Inr (ExtendedIndexEntry (time basic_entry) (checksum basic_entry)
                      (path basic_entry) (offset basic_entry) profile', h')))"

definition read_from_same_index ::
  "externals \<Rightarrow> handle \<Rightarrow> IndexVersion \<Rightarrow> error + (entry \<times> handle)" where
  "read_from_same_index env h index_version =
     (case get_older_version index_version of
        Inl e \<Rightarrow> Inl e
      | Inr older \<Rightarrow>
     (case BasicIndexEntry_read_from env h older of
        Inl e \<Rightarrow> Inl e
      | Inr (basic_entry, h0) \<Rightarrow>
     (case read_string_from_handle h0 of
        Inl e \<Rightarrow> Inl e
      | Inr (type', h1) \<Rightarrow>
     (case read_string_from_handle h1 of
        Inl e \<Rightarrow> Inl e
      | Inr (cmd', h2) \<Rightarrow>
     (case read_string_from_handle h2 of
        Inl e \<Rightarrow> Inl e
      | Inr (workload', h3) \<Rightarrow>
     (case read_string_from_handle h3 of
        Inl e \<Rightarrow> Inl e
      | Inr (name', h4) \<Rightarrow>
     (case read_list_from_handle h4 of
        Inl e \<Rightarrow> Inl e
      | Inr (posts, h5) \<Rightarrow>
          Inr (ExtendedIndexEntry (time basic_entry) (checksum basic_entry)
                 (path basic_entry) (offset basic_entry)
                 \<lparr>header_type = type', header_cmd = cmd', header_workload = Some workload',
                  collector_info_name = name', postprocessor_names = posts\<rparr>, h5))))))))"

definition ExtendedIndexEntry_read_from ::
  "externals \<Rightarrow> handle \<Rightarrow> IndexVersion \<Rightarrow> error + (entry \<times> handle)" where
  "ExtendedIndexEntry_read_from env h index_version =
     (if version_value FastSloth > version_value index_version
      then read_from_older_index env h index_version
      else read_from_same_index env h index_version)"

definition ExtendedIndexEntry_write_to :: "externals \<Rightarrow> entry \<Rightarrow> handle \<Rightarrow> error + handle" where
  "ExtendedIndexEntry_write_to env self h =
     (case BasicIndexEntry_write_to env self h of
        Inl e \<Rightarrow> Inl e
      | Inr h0 \<Rightarrow>
     (case write_string_to_handle h0 (type self) of
        Inl e \<Rightarrow> Inl e
      | Inr h1 \<Rightarrow>
     (case write_string_to_handle h1 (cmd self) of
        Inl e \<Rightarrow> Inl e
      | Inr h2 \<Rightarrow>
     (case write_string_to_handle h2 (workload self) of
        Inl e \<Rightarrow> Inl e
      | Inr h3 \<Rightarrow>
     (case write_string_to_handle h3 (collector self) of
        Inl e \<Rightarrow> Inl e
      | Inr h4 \<Rightarrow> write_list_to_handle h4 (postprocessors self))))))"

text \<open>\<open>entry.write_to(handle)\<close>: the method of the class of the entry.\<close>

definition write_to :: "externals \<Rightarrow> entry \<Rightarrow> handle \<Rightarrow> error + handle" where
  "write_to env self h =
     (case version self of
        SlowLorris \<Rightarrow> BasicIndexEntry_write_to env self h
      | FastSloth \<Rightarrow> ExtendedIndexEntry_write_to env self h)"


subsection \<open>Walking the index\<close>

text \<open>
  \<open>walk_index\<close> is a generator. Its model gives the entries it yields when it is consumed
  to its end, and how it ends: exhausted, exhausted after the report of a count that does
  not match, or with an exception. A consumer that stops at an entry sees the entries up
  to that one and nothing of the end.

  Modelled from the spec: \<open>perun_log.error\<close>, not among the sources. After the loop the
  walker emits a corruption warning that is not fatal and does not raise: the end
  \<open>Mismatch\<close>.
\<close>

datatype walk_end = Exhausted | Mismatch | Raised error

definition mismatch_event :: log_event where
  "mismatch_event =
     LogError ''fatal: malformed index file: too many or too few objects registered in index''"

text \<open>
  The loop of \<open>walk_index\<close>. The constructor is \<open>INDEX_ENTRY_CONSTRUCTORS[INDEX_VERSION - 1]\<close>,
  which is \<open>ExtendedIndexEntry\<close>; \<open>IndexVersion(index_version)\<close> is evaluated for every record.
\<close>

function walk_loop ::
  "externals \<Rightarrow> handle \<Rightarrow> nat \<Rightarrow> nat \<Rightarrow> nat \<Rightarrow> nat \<Rightarrow> entry list \<times> walk_end" where
  "walk_loop env h last_position index_version number_of_objects loaded_objects =
     (if tell h + 24 < last_position \<and> loaded_objects < number_of_objects then
        (case IndexVersion_of (int index_version) of
           Inl e \<Rightarrow> ([], Raised e)
         | Inr v \<Rightarrow>
             (case ExtendedIndexEntry_read_from env h v of
                Inl e \<Rightarrow> ([], Raised e)
              | Inr (entry, h') \<Rightarrow>
                  (case walk_loop env h' last_position index_version number_of_objects
                          (loaded_objects + 1) of
                     (entries, r) \<Rightarrow> (entry # entries, r))))
      else ([], if loaded_objects \<noteq> number_of_objects then Mismatch else Exhausted))"
  by pat_completeness auto
termination
  by (relation "measure (\<lambda>(env, h, last_position, index_version, number_of_objects,
        loaded_objects). number_of_objects - loaded_objects)") auto

declare walk_loop.simps [simp del]

definition version_message :: "nat \<Rightarrow> string" where
  "version_message index_version =
     ''read index file is in format of different index version (read index file = ''
       @ str_nat index_version @ '', supported = '' @ str_int INDEX_VERSION @ '')''"

definition walk_index :: "externals \<Rightarrow> handle \<Rightarrow> entry list \<times> walk_end" where
  "walk_index env index_handle =
     (let h0 = seek_end index_handle;
          last_position = tell h0;
          h1 = seek 0 h0
      in case read 4 h1 of (magic_bytes, h2) \<Rightarrow>
        if magic_bytes \<noteq> INDEX_MAGIC_PREFIX
        then ([], Raised (MalformedIndexFileException ''read blob is not an index file''))
        else
          (case read_int_from_handle h2 of
             Inl e \<Rightarrow> ([], Raised e)
           | Inr (index_version, h3) \<Rightarrow>
               if int index_version > INDEX_VERSION
               then ([], Raised (MalformedIndexFileException (version_message index_version)))
               else
                 (case read_int_from_handle h3 of
                    Inl e \<Rightarrow> ([], Raised e)
                  | Inr (number_of_objects, h4) \<Rightarrow>
                      walk_loop env h4 last_position index_version number_of_objects 0)))"

text \<open>\<open>list(walk_index(index_handle))\<close>: the walker consumed to its end.\<close>

definition list_walk_index ::
  "externals \<Rightarrow> handle \<Rightarrow> error + (entry list \<times> log_event list)" where
  "list_walk_index env index_handle =
     (case walk_index env index_handle of
        (entries, Raised e) \<Rightarrow> Inl e
      | (entries, Mismatch) \<Rightarrow> Inr (entries, [mismatch_event])
      | (entries, Exhausted) \<Rightarrow> Inr (entries, []))"

subsection \<open>Lookup\<close>

text \<open>
  The first entry that satisfies the predicate; the walker is consumed no further. The
  events are those of the walker, which reports only when it is consumed to its end.
\<close>

definition lookup_entry_within_index ::
  "externals \<Rightarrow> handle \<Rightarrow> (entry \<Rightarrow> bool) \<Rightarrow> string \<Rightarrow> log_event list \<times> (error + entry)" where
  "lookup_entry_within_index env index_handle predicate looked_up_entry_name =
     (case walk_index env index_handle of (entries, r) \<Rightarrow>
        (case find predicate entries of
           Some entry \<Rightarrow> ([], Inr entry)
         | None \<Rightarrow>
             (case r of
                Raised e \<Rightarrow> ([], Inl e)
              | Mismatch \<Rightarrow> ([mismatch_event], Inl (EntryNotFoundException looked_up_entry_name))
              | Exhausted \<Rightarrow> ([], Inl (EntryNotFoundException looked_up_entry_name)))))"

definition lookup_all_entries_within_index ::
  "externals \<Rightarrow> handle \<Rightarrow> (entry \<Rightarrow> bool) \<Rightarrow> error + (entry list \<times> log_event list)" where
  "lookup_all_entries_within_index env index_handle predicate =
     (case list_walk_index env index_handle of
        Inl e \<Rightarrow> Inl e
      | Inr (entries, events) \<Rightarrow> Inr (filter predicate entries, events))"

subsection \<open>The header\<close>

definition initialize_index_in_handle :: "handle \<Rightarrow> error + handle" where
  "initialize_index_in_handle index_handle =
     (case pack_i INDEX_VERSION of
        Inl e \<Rightarrow> Inl e
      | Inr version_bytes \<Rightarrow>
          (case pack_i 0 of
             Inl e \<Rightarrow> Inl e
           | Inr count_bytes \<Rightarrow>
               Inr (write_bytes count_bytes
                     (write_bytes version_bytes (write_bytes INDEX_MAGIC_PREFIX index_handle)))))"

text \<open>\<open>touch_index\<close> on the content of the file at the path, \<open>None\<close> when there is no file.\<close>

definition touch_index :: "string option \<Rightarrow> error + string" where
  "touch_index index_file =
     (case index_file of
        Some bytes \<Rightarrow> Inr bytes
      | None \<Rightarrow>
          (case initialize_index_in_handle (open_handle []) of
             Inl e \<Rightarrow> Inl e
           | Inr h \<Rightarrow> Inr (content h)))"

definition update_index_version :: "handle \<Rightarrow> error + handle" where
  "update_index_version index_handle =
     (let previous_position = tell index_handle in
      case pack_i INDEX_VERSION of
        Inl e \<Rightarrow> Inl e
      | Inr version_bytes \<Rightarrow>
          Inr (seek previous_position (write_bytes version_bytes (seek 4 index_handle))))"

definition modify_number_of_entries_in_index ::
  "handle \<Rightarrow> (int \<Rightarrow> int) \<Rightarrow> error + handle" where
  "modify_number_of_entries_in_index index_handle modify =
     (case read_int_from_handle (seek INDEX_NUMBER_OF_ENTRIES_OFFSET index_handle) of
        Inl e \<Rightarrow> Inl e
      | Inr (number_of_entries, h) \<Rightarrow>
          (case pack_i (modify (int number_of_entries)) of
             Inl e \<Rightarrow> Inl e
           | Inr count_bytes \<Rightarrow>
               Inr (write_bytes count_bytes (seek INDEX_NUMBER_OF_ENTRIES_OFFSET h))))"


subsection \<open>Mutators\<close>

text \<open>
  The mutators open the file themselves; their models take the content of the file and
  give the content it has when the handle is closed, with the events logged on the way.
  The content a file is left with by a call that raises is not modelled.
\<close>

text \<open>
  The first part of \<open>write_entry_to_index\<close>: where the entry goes. \<open>None\<close> is the early
  return for an entry that is registered already.
\<close>

definition insertion_predicate :: "entry \<Rightarrow> entry \<Rightarrow> bool" where
  "insertion_predicate file_entry entry \<longleftrightarrow>
     path entry > path file_entry
     \<or> (path entry = path file_entry \<and> time entry \<ge> time file_entry)"

definition already_registered :: "entry \<Rightarrow> string \<Rightarrow> log_event" where
  "already_registered file_entry index_file =
     LogWarn (path file_entry @ '' ('' @ time file_entry @ '') already registered in ''
              @ index_file)"

definition lookup_offset ::
  "externals \<Rightarrow> string \<Rightarrow> handle \<Rightarrow> entry \<Rightarrow> error + (int option \<times> log_event list)" where
  "lookup_offset env index_file index_handle file_entry =
     (if offset file_entry = - 1 then
        (case lookup_entry_within_index env index_handle (insertion_predicate file_entry)
                (path file_entry) of
           (events, Inr looked_up_entry) \<Rightarrow>
             if path looked_up_entry = path file_entry \<and> time looked_up_entry = time file_entry
             then Inr (None, events @ [already_registered file_entry index_file])
             else Inr (Some (offset looked_up_entry), events)
         | (events, Inl (EntryNotFoundException _)) \<Rightarrow>
             Inr (Some (int (tell (seek_end index_handle))), events)
         | (events, Inl e) \<Rightarrow> Inl e)
      else Inr (Some (offset file_entry), []))"

text \<open>
  The second part: the count, the buffered tail, the entry, the tail, the version. A seek
  to a negative offset is an \<open>OSError\<close>.
\<close>

definition write_entry_at :: "externals \<Rightarrow> handle \<Rightarrow> int \<Rightarrow> entry \<Rightarrow> error + handle" where
  "write_entry_at env index_handle offset_in_file file_entry =
     (case modify_number_of_entries_in_index index_handle (\<lambda>x. x + 1) of
        Inl e \<Rightarrow> Inl e
      | Inr h1 \<Rightarrow>
          if offset_in_file < 0 then Inl OSError
          else
            (case read_all (seek (nat offset_in_file) h1) of (buffer, h2) \<Rightarrow>
               (case write_to env file_entry (seek (nat offset_in_file) h2) of
                  Inl e \<Rightarrow> Inl e
                | Inr h3 \<Rightarrow> update_index_version (write_bytes buffer h3))))"

definition write_entry_to_index ::
  "externals \<Rightarrow> string \<Rightarrow> string \<Rightarrow> entry \<Rightarrow> error + (string \<times> log_event list)" where
  "write_entry_to_index env index_file bytes file_entry =
     (let index_handle = open_handle bytes in
      case lookup_offset env index_file index_handle file_entry of
        Inl e \<Rightarrow> Inl e
      | Inr (None, events) \<Rightarrow> Inr (bytes, events)
      | Inr (Some offset_in_file, events) \<Rightarrow>
          (case write_entry_at env index_handle offset_in_file file_entry of
             Inl e \<Rightarrow> Inl e
           | Inr h \<Rightarrow> Inr (content h, events)))"

fun write_entries :: "externals \<Rightarrow> entry list \<Rightarrow> handle \<Rightarrow> error + handle" where
  "write_entries env [] h = Inr h"
| "write_entries env (entry # entry_list) h =
     (case write_to env entry h of
        Inl e \<Rightarrow> Inl e
      | Inr h' \<Rightarrow> write_entries env entry_list h')"

text \<open>\<open>write_list_of_entries\<close>: the file is opened with \<open>"wb+"\<close>, which empties it.\<close>

definition write_list_of_entries :: "externals \<Rightarrow> entry list \<Rightarrow> error + string" where
  "write_list_of_entries env entry_list =
     (let index_handle = truncate_to 0 (open_handle []) in
      case initialize_index_in_handle index_handle of
        Inl e \<Rightarrow> Inl e
      | Inr h1 \<Rightarrow>
          (case modify_number_of_entries_in_index h1 (\<lambda>x. int (length entry_list)) of
             Inl e \<Rightarrow> Inl e
           | Inr h2 \<Rightarrow>
               (case write_entries env entry_list (seek INDEX_ENTRIES_START_OFFSET h2) of
                  Inl e \<Rightarrow> Inl e
                | Inr h3 \<Rightarrow> Inr (content h3))))"

text \<open>The \<open>lookup_function\<close> of \<open>remove_from_index\<close> for one removed file.\<close>

definition lookup_function :: "externals \<Rightarrow> string \<Rightarrow> entry \<Rightarrow> bool" where
  "lookup_function env removed_file looked_entry =
     (if is_sha1 env removed_file then checksum looked_entry = removed_file
      else path looked_entry = removed_file)"

text \<open>
  The loop over the removed files. Its state is \<open>removed_entries\<close>, \<open>removed_profile_number\<close>
  and the events; the counter in front of each message (\<open>common_kit.format_counter_number\<close>,
  not among the sources) is left out of the events.
\<close>

fun lookup_removed ::
  "externals \<Rightarrow> handle \<Rightarrow> string list \<Rightarrow> entry list \<times> nat \<times> log_event list
     \<Rightarrow> error + (entry list \<times> nat \<times> log_event list)" where
  "lookup_removed env index_handle [] state = Inr state"
| "lookup_removed env index_handle (removed_file # rest)
       (removed_entries, removed_profile_number, events) =
     (case lookup_entry_within_index env index_handle (lookup_function env removed_file)
             removed_file of
        (walked, Inr found_entry) \<Rightarrow>
          lookup_removed env index_handle rest
            (removed_entries @ [found_entry], removed_profile_number,
             events @ walked @ [MinorSuccess (path found_entry) ''deregistered''])
      | (walked, Inl (EntryNotFoundException _)) \<Rightarrow>
          lookup_removed env index_handle rest
            (removed_entries, removed_profile_number - 1,
             events @ walked @ [MinorFail removed_file ''not found''])
      | (walked, Inl e) \<Rightarrow> Inl e)"

text \<open>The loop that writes the entries that stay; \<open>in\<close> is by \<open>__eq__\<close>.\<close>

fun write_kept :: "externals \<Rightarrow> entry list \<Rightarrow> entry list \<Rightarrow> handle \<Rightarrow> error + handle" where
  "write_kept env [] removed_entries h = Inr h"
| "write_kept env (entry # all_entries) removed_entries h =
     (if list_ex (entry_eq entry) removed_entries
      then write_kept env all_entries removed_entries h
      else (case write_to env entry h of
              Inl e \<Rightarrow> Inl e
            | Inr h' \<Rightarrow> write_kept env all_entries removed_entries h'))"

definition removal_summary :: "nat \<Rightarrow> log_event list" where
  "removal_summary removed_profile_number =
     [MajorInfo ''Summary'',
      if removed_profile_number \<noteq> 0
      then MinorStatus ''Removal succeeded for'' removed_profile_number
      else MinorInfo ''Nothing to remove'']"

text \<open>
  \<open>remove_from_index\<close> on the content of the index of the minor version, \<open>None\<close> when
  there is no such file.
\<close>

definition remove_from_index ::
  "externals \<Rightarrow> string option \<Rightarrow> string list \<Rightarrow> error + (string option \<times> log_event list)" where
  "remove_from_index env minor_version_index removed_file_generator =
     (let removed_profile_number = length removed_file_generator in
      if removed_profile_number = 0 then Inr (minor_version_index, [MinorInfo ''Nothing to remove''])
      else
        (case minor_version_index of
           None \<Rightarrow> Inl (EntryNotFoundException [])
         | Some bytes \<Rightarrow>
             (let index_handle = open_handle bytes in
              case list_walk_index env index_handle of
                Inl e \<Rightarrow> Inl e
              | Inr (walked_entries, walked) \<Rightarrow>
                  (let all_entries = sort_key offset walked_entries in
                   case lookup_removed env index_handle removed_file_generator
                          ([], removed_profile_number,
                           [MajorInfo ''Removing from index''] @ walked) of
                     Inl e \<Rightarrow> Inl e
                   | Inr (removed_entries, removed_profile_number', events) \<Rightarrow>
                       (case pack_i (int (length all_entries) - int (length removed_entries)) of
                          Inl e \<Rightarrow> Inl e
                        | Inr count_bytes \<Rightarrow>
                            (case write_kept env all_entries removed_entries
                                    (write_bytes count_bytes
                                      (seek INDEX_NUMBER_OF_ENTRIES_OFFSET index_handle)) of
                               Inl e \<Rightarrow> Inl e
                             | Inr h \<Rightarrow>
                                 Inr (Some (content (truncate_here h)),
                                      events @ removal_summary removed_profile_number')))))))"

subsection \<open>The custom index\<close>

text \<open>
  The custom index is a JSON document, compressed. The compression and JSON are taken as
  they come: \<open>store.read_and_deflate_chunk\<close> and \<open>json.loads\<close> are parameters that give
  the exception they raise or their result, \<open>store.pack_content\<close> and \<open>json.dumps\<close> are
  parameters too. The file system is a map from paths to contents.
\<close>

datatype json =
    JNull
  | JBool bool
  | JNumber int
  | JString string
  | JArray "json list"
  | JObject "(string \<times> json) list"





subsection \<open>Header fields, valid entries and the bytes of an index\<close>

text \<open>The two numbers of the header, read from the content of a file.\<close>

definition format_version :: "string \<Rightarrow> nat" where
  "format_version bytes = un_le32 (take 4 (drop 4 bytes))"

definition entry_count :: "string \<Rightarrow> nat" where
  "entry_count bytes = un_le32 (take 4 (drop 8 bytes))"

text \<open>
  An entry is valid when its fields survive the record: the time is the string of a
  timestamp of four bytes, the checksum is forty lower-case hexadecimal digits, the path
  has no NUL, the strings and the list have lengths of four bytes, and an entry of the
  basic class has the fields its constructor sets.
\<close>

definition lowercase_hex :: "char \<Rightarrow> bool" where
  "lowercase_hex c \<longleftrightarrow> c \<in> set ''0123456789abcdef''"

definition valid_time :: "externals \<Rightarrow> string \<Rightarrow> bool" where
  "valid_time env t =
     (case str_to_timestamp env t of
        Inl _ \<Rightarrow> False
      | Inr timestamp \<Rightarrow>
          0 \<le> timestamp \<and> timestamp < 4294967296 \<and> timestamp_to_str env (nat timestamp) = t)"

definition valid_checksum :: "string \<Rightarrow> bool" where
  "valid_checksum c \<longleftrightarrow> length c = 40 \<and> list_all lowercase_hex c"

definition short :: "string \<Rightarrow> bool" where
  "short s \<longleftrightarrow> length s < 4294967296"

definition valid_entry :: "externals \<Rightarrow> entry \<Rightarrow> bool" where
  "valid_entry env e \<longleftrightarrow>
     valid_time env (time e) \<and> valid_checksum (checksum e) \<and> CHR 0x00 \<notin> set (path e)
     \<and> (case version e of
          SlowLorris \<Rightarrow>
            type e = ''??'' \<and> cmd e = ''??'' \<and> workload e = ''??'' \<and> collector e = ''??''
            \<and> postprocessors e = []
        | FastSloth \<Rightarrow>
            short (type e) \<and> short (cmd e) \<and> short (workload e) \<and> short (collector e)
            \<and> length (postprocessors e) < 4294967296 \<and> list_all short (postprocessors e))"

definition extended_entry :: "externals \<Rightarrow> entry \<Rightarrow> bool" where
  "extended_entry env e \<longleftrightarrow> valid_entry env e \<and> version e = FastSloth"

text \<open>The bytes of the record of an entry, of a list of entries, and of a whole index.\<close>

definition timestamp_of :: "externals \<Rightarrow> string \<Rightarrow> nat" where
  "timestamp_of env t =
     (case str_to_timestamp env t of Inl _ \<Rightarrow> 0 | Inr timestamp \<Rightarrow> nat timestamp)"

definition sha_of :: "string \<Rightarrow> string" where
  "sha_of c = (case fromhex c of Inl _ \<Rightarrow> [] | Inr sha_bytes \<Rightarrow> sha_bytes)"

definition string_image :: "string \<Rightarrow> string" where
  "string_image s = le32 (length s) @ s"

definition basic_image :: "externals \<Rightarrow> entry \<Rightarrow> string" where
  "basic_image env e =
     le32 (timestamp_of env (time e)) @ sha_of (checksum e) @ path e @ [CHR 0x00]"

definition extended_image :: "externals \<Rightarrow> entry \<Rightarrow> string" where
  "extended_image env e =
     basic_image env e @ string_image (type e) @ string_image (cmd e)
       @ string_image (workload e) @ string_image (collector e)
       @ le32 (length (postprocessors e)) @ concat (map string_image (postprocessors e))"

definition entry_image :: "externals \<Rightarrow> entry \<Rightarrow> string" where
  "entry_image env e =
     (case version e of SlowLorris \<Rightarrow> basic_image env e | FastSloth \<Rightarrow> extended_image env e)"

definition body_image :: "externals \<Rightarrow> entry list \<Rightarrow> string" where
  "body_image env es = concat (map (entry_image env) es)"

definition index_image :: "externals \<Rightarrow> nat \<Rightarrow> nat \<Rightarrow> entry list \<Rightarrow> string" where
  "index_image env v c es = INDEX_MAGIC_PREFIX @ le32 v @ le32 c @ body_image env es"

text \<open>The entries with the offsets their records have when the first is at \<open>p\<close>.\<close>

fun placed :: "externals \<Rightarrow> nat \<Rightarrow> entry list \<Rightarrow> entry list" where
  "placed env p [] = []"
| "placed env p (e # es) =
     e\<lparr>offset := int p\<rparr> # placed env (p + length (entry_image env e)) es"

subsection \<open>An instance of the externals\<close>

text \<open>
  For the examples: a time is the decimal string of its timestamp, a key of forty
  hexadecimal digits is a checksum, and the object store has the same profile for every
  checksum.
\<close>

definition parse_decimal :: "string \<Rightarrow> error + int" where
  "parse_decimal s =
     (if s \<noteq> [] \<and> list_all (\<lambda>c. 48 \<le> (of_char c :: nat) \<and> (of_char c :: nat) \<le> 57) s
      then Inr (int (foldl (\<lambda>n c. 10 * n + (of_char c - 48)) 0 s))
      else Inl ValueError)"

definition stored_profile :: profile where
  "stored_profile =
     \<lparr>header_type = ''time'', header_cmd = ''ls'', header_workload = None,
      collector_info_name = ''time'', postprocessor_names = []\<rparr>"

definition example_externals :: externals where
  "example_externals =
     \<lparr>timestamp_to_str = str_nat, str_to_timestamp = parse_decimal,
      is_sha1 = (\<lambda>s. length s = 40 \<and> list_all (\<lambda>c. hexval c \<noteq> None) s),
      load_profile = (\<lambda>checksum'. Inr stored_profile)\<rparr>"

definition example_checksum :: string where
  "example_checksum = ''aaaaaaaaaaaaaaaaaaaaaaaaaaaaaaaaaaaaaaaa''"

definition other_checksum :: string where
  "other_checksum = ''0123456789abcdef0123456789abcdef01234567''"

definition entry_a :: entry where
  "entry_a =
     ExtendedIndexEntry ''5'' example_checksum ''a.prof'' (- 1)
       \<lparr>header_type = ''time'', header_cmd = ''ls'', header_workload = Some ''w'',
        collector_info_name = ''time'', postprocessor_names = [''p1'', ''p2'']\<rparr>"

definition entry_a_later :: entry where
  "entry_a_later =
     ExtendedIndexEntry ''6'' other_checksum ''a.prof'' (- 1)
       \<lparr>header_type = ''time'', header_cmd = ''ls'', header_workload = Some ''w'',
        collector_info_name = ''time'', postprocessor_names = []\<rparr>"

definition entry_b :: entry where
  "entry_b =
     ExtendedIndexEntry ''7'' other_checksum ''b.prof'' (- 1)
       \<lparr>header_type = ''memory'', header_cmd = ''ls'', header_workload = None,
        collector_info_name = ''memory'', postprocessor_names = []\<rparr>"

subsection \<open>Encoding and decoding one entry\<close>

text \<open>
  \<open>read_from\<close> of the class of a generation, on a file of the version of that
  generation; and an entry written behind the bytes \<open>before\<close> and read again from there.
\<close>

definition read_from :: "externals \<Rightarrow> IndexVersion \<Rightarrow> handle \<Rightarrow> error + (entry \<times> handle)" where
  "read_from env generation h =
     (case generation of
        SlowLorris \<Rightarrow> BasicIndexEntry_read_from env h SlowLorris
      | FastSloth \<Rightarrow> ExtendedIndexEntry_read_from env h FastSloth)"

definition decode_encoded :: "externals \<Rightarrow> string \<Rightarrow> entry \<Rightarrow> error + entry" where
  "decode_encoded env before e =
     (case write_to env e \<lparr>content = before, pos = length before\<rparr> of
        Inl x \<Rightarrow> Inl x
      | Inr h \<Rightarrow>
          (case read_from env (version e) (seek (length before) h) of
             Inl x \<Rightarrow> Inl x
           | Inr (e', h') \<Rightarrow> Inr e'))"

subsection \<open>The order of the records and sequences of insertions\<close>

text \<open>The order of the insertion comparator: by path, then by time, both as strings.\<close>

definition entry_before :: "entry \<Rightarrow> entry \<Rightarrow> bool" where
  "entry_before a b \<longleftrightarrow> path a < path b \<or> (path a = path b \<and> time a < time b)"

text \<open>
  What an insertion does to the list of the records: the entry goes in front of the first
  record that satisfies the predicate, or to the end, or nowhere when that record has its
  path and time.
\<close>

definition insert_entry :: "entry \<Rightarrow> entry list \<Rightarrow> entry list" where
  "insert_entry e es =
     (case dropWhile (\<lambda>x. \<not> insertion_predicate e x) es of
        [] \<Rightarrow> es @ [e]
      | y # _ \<Rightarrow>
          if path y = path e \<and> time y = time e then es
          else takeWhile (\<lambda>x. \<not> insertion_predicate e x) es @ e
                 # dropWhile (\<lambda>x. \<not> insertion_predicate e x) es)"

definition registered :: "entry \<Rightarrow> entry list \<Rightarrow> bool" where
  "registered e es =
     (case dropWhile (\<lambda>x. \<not> insertion_predicate e x) es of
        [] \<Rightarrow> False
      | y # _ \<Rightarrow> path y = path e \<and> time y = time e)"

text \<open>A sequence of calls of \<open>write_entry_to_index\<close> on one file; it ends at the first error.\<close>

fun write_entries_to_index ::
  "externals \<Rightarrow> string \<Rightarrow> string \<Rightarrow> entry list \<Rightarrow> error + string" where
  "write_entries_to_index env index_file bytes [] = Inr bytes"
| "write_entries_to_index env index_file bytes (file_entry # rest) =
     (case write_entry_to_index env index_file bytes file_entry of
        Inl e \<Rightarrow> Inl e
      | Inr (bytes', events) \<Rightarrow> write_entries_to_index env index_file bytes' rest)"

subsection \<open>What a removal does to the list of the records\<close>

text \<open>
  For every removed file the first entry, in the order of the walker, that its lookup
  function accepts; a removed file that matches no entry gives none. The entries that stay
  are those that are equal, by \<open>__eq__\<close>, to none of these.
\<close>

definition first_matches :: "externals \<Rightarrow> string list \<Rightarrow> entry list \<Rightarrow> entry list" where
  "first_matches env removed_files all_entries =
     List.map_filter (\<lambda>removed_file. find (lookup_function env removed_file) all_entries)
       removed_files"

definition kept_entries :: "entry list \<Rightarrow> entry list \<Rightarrow> entry list" where
  "kept_entries all_entries removed_entries =
     filter (\<lambda>e. \<not> list_ex (entry_eq e) removed_entries) all_entries"

definition matched :: "externals \<Rightarrow> entry list \<Rightarrow> string \<Rightarrow> bool" where
  "matched env all_entries removed_file = list_ex (lookup_function env removed_file) all_entries"

text \<open>The count that \<open>struct.pack("i", n)\<close> stores, read as an unsigned number.\<close>

definition stored_count :: "int \<Rightarrow> nat" where
  "stored_count n = nat (n mod 4294967296)"

subsection \<open>Files of the older version\<close>

text \<open>
  A record of a file of version 1 has the three fields of the basic entry; the walker
  makes an extended entry of it with the profile that the object store has for the
  checksum.
\<close>

definition legacy_record :: "externals \<Rightarrow> entry \<Rightarrow> bool" where
  "legacy_record env e \<longleftrightarrow>
     valid_time env (time e) \<and> valid_checksum (checksum e) \<and> CHR 0x00 \<notin> set (path e)
     \<and> (case load_profile env (checksum e) of Inl _ \<Rightarrow> False | Inr _ \<Rightarrow> True)"

definition upgraded :: "externals \<Rightarrow> nat \<Rightarrow> entry \<Rightarrow> entry" where
  "upgraded env p e =
     (case load_profile env (checksum e) of
        Inl _ \<Rightarrow> e
      | Inr profile' \<Rightarrow> ExtendedIndexEntry (time e) (checksum e) (path e) (int p) profile')"

fun placed_legacy :: "externals \<Rightarrow> nat \<Rightarrow> entry list \<Rightarrow> entry list" where
  "placed_legacy env p [] = []"
| "placed_legacy env p (e # es) =
     upgraded env p e # placed_legacy env (p + length (basic_image env e)) es"

definition legacy_image :: "externals \<Rightarrow> nat \<Rightarrow> entry list \<Rightarrow> string" where
  "legacy_image env c es =
     INDEX_MAGIC_PREFIX @ le32 1 @ le32 c @ concat (map (basic_image env) es)"

definition legacy_a :: entry where
  "legacy_a = BasicIndexEntry ''5'' example_checksum ''a.prof'' (- 1)"


section \<open>Properties\<close>

subsection \<open>Integers, reads and writes\<close>

lemma read_from_events_basic: "read_from_events SlowLorris = []"
  by (simp add: read_from_events_def)

lemma length_le32: "length (le32 n) = 4"
  by (simp add: le32_def)

lemma un_le32_le32:
  assumes "n < 4294967296"
  shows "un_le32 (le32 n) = n"
proof -
  define a where "a = n div 256"
  define b where "b = a div 256"
  define c where "c = b div 256"
  define n0 where "n0 = n mod 256"
  define a0 where "a0 = a mod 256"
  define b0 where "b0 = b mod 256"
  have b: "b = n div 65536"
    unfolding b_def a_def by (simp add: div_mult2_eq)
  have c: "c = n div 16777216"
    unfolding c_def b by (simp add: div_mult2_eq)
  have c256: "c mod 256 = c"
    unfolding c using assms by (simp add: less_mult_imp_div_less)
  have "n = n0 + 256 * a" "a = a0 + 256 * b" "b = b0 + 256 * c"
    by (simp_all add: a_def b_def c_def n0_def a0_def b0_def)
  then have "n0 + 256 * a0 + 65536 * b0 + 16777216 * c = n"
    by linarith
  then show ?thesis
    using c256 by (simp add: un_le32_def le32_def a_def b c n0_def a0_def b0_def)
qed

lemma read_at:
  assumes "content h = pre @ bs @ rest" "pos h = length pre"
  shows "\<exists>h'. read (length bs) h = (bs, h') \<and> content h' = content h
    \<and> pos h' = length pre + length bs"
  using assms by (simp add: read_def)

lemma read_all_at:
  assumes "content h = pre @ rest" "pos h = length pre"
  shows "read_all h = (rest, h\<lparr>pos := length pre + length rest\<rparr>)"
  using assms by (simp add: read_all_def)

lemma write_bytes_append: "write_bytes b (write_bytes a h) = write_bytes (a @ b) h"
proof (cases "a = [] \<or> b = []")
  case True
  then show ?thesis by (auto simp: write_bytes_def)
next
  case False
  then show ?thesis
    apply (simp add: write_bytes_def)
    apply (rule arg_cong [where f = "\<lambda>n. drop n (content h)"])
    apply arith
    done
qed

lemma read_int_at:
  assumes "content h = pre @ le32 n @ rest" "pos h = length pre" "n < 4294967296"
  shows "\<exists>h'. read_int_from_handle h = Inr (n, h') \<and> content h' = content h
    \<and> pos h' = length pre + 4"
  using read_at [OF assms(1,2)] assms(3)
  by (auto simp: read_int_from_handle_def length_le32 un_le32_le32)

lemma read_char_at:
  assumes "content h = pre @ c # rest" "pos h = length pre"
  shows "\<exists>h'. read_char_from_handle h = Inr (c, h') \<and> content h' = content h
    \<and> pos h' = length pre + 1"
  using read_at [of h pre "[c]" rest] assms
  by (auto simp: read_char_from_handle_def)

lemma read_path_at:
  assumes "content h = pre @ p @ CHR 0x00 # rest" "pos h = length pre" "CHR 0x00 \<notin> set p"
  shows "\<exists>h'. read_path acc h = Inr (acc @ p, h') \<and> content h' = content h
    \<and> pos h' = length pre + length p + 1"
  using assms
proof (induction p arbitrary: acc pre h)
  case Nil
  then show ?case
    using read_char_at [of h pre "CHR 0x00" rest] by (auto simp: read_path.simps)
next
  case (Cons c p)
  from Cons.prems read_char_at [of h pre c "p @ CHR 0x00 # rest"]
  obtain h1 where h1: "read_char_from_handle h = Inr (c, h1)" "content h1 = content h"
    "pos h1 = length pre + 1"
    by auto
  have "\<exists>h'. read_path (acc @ [c]) h1 = Inr ((acc @ [c]) @ p, h') \<and> content h' = content h1
    \<and> pos h' = length (pre @ [c]) + length p + 1"
    using Cons.prems h1 by (intro Cons.IH) simp_all
  with h1 Cons.prems show ?case
    by (subst read_path.simps) auto
qed

lemma read_string_at:
  assumes "content h = pre @ le32 (length s) @ s @ rest" "pos h = length pre"
    "length s < 4294967296"
  shows "\<exists>h'. read_string_from_handle h = Inr (s, h') \<and> content h' = content h
    \<and> pos h' = length pre + 4 + length s"
proof -
  from read_int_at [OF assms]
  obtain h1 where h1: "read_int_from_handle h = Inr (length s, h1)" "content h1 = content h"
    "pos h1 = length pre + 4"
    by auto
  have "\<exists>h'. read (length s) h1 = (s, h') \<and> content h' = content h1
    \<and> pos h' = length (pre @ le32 (length s)) + length s"
    using assms h1 by (intro read_at) (simp_all add: length_le32)
  with h1 show ?thesis
    by (auto simp: read_string_from_handle_def length_le32)
qed

subsection \<open>Checksums\<close>

lemma lowercase_hex_char:
  assumes "lowercase_hex c"
  shows "\<not> is_space c" "\<exists>a<16. hexval c = Some a \<and> hexdigit a = c"
  using assms
  by (auto simp: lowercase_hex_def is_space_def hexval_def hexdigit_def)

lemma byte_nibbles:
  assumes "a < 16" "b < 16"
  shows "(of_char (char_of (16 * a + b :: nat)) :: nat) div 16 = a"
    "(of_char (char_of (16 * a + b :: nat)) :: nat) mod 16 = b"
proof -
  have "16 * a + b < 256" using assms by simp
  then have "(of_char (char_of (16 * a + b :: nat)) :: nat) = 16 * a + b"
    by (simp add: of_char_of)
  then show "(of_char (char_of (16 * a + b :: nat)) :: nat) div 16 = a"
    "(of_char (char_of (16 * a + b :: nat)) :: nat) mod 16 = b"
    using assms by simp_all
qed

lemma fromhex_lowercase:
  assumes "list_all lowercase_hex c" "even (length c)"
  shows "\<exists>bs. fromhex c = Inr bs \<and> 2 * length bs = length c \<and> hexlify bs = c"
  using assms
proof (induction c rule: fromhex.induct)
  case 1
  then show ?case by (simp add: hexlify_def)
next
  case (2 c)
  then show ?case by simp
next
  case (3 c d cs)
  from "3.prems" have c: "lowercase_hex c" and d: "lowercase_hex d"
    and cs: "list_all lowercase_hex cs" "even (length cs)"
    by simp_all
  from lowercase_hex_char [OF c] obtain a where a: "\<not> is_space c" "a < 16" "hexval c = Some a" "hexdigit a = c"
    by blast
  from lowercase_hex_char [OF d] obtain b where b: "b < 16" "hexval d = Some b" "hexdigit b = d"
    by blast
  from "3.IH"(2) [OF a(1) refl a(3) b(2) cs]
  obtain bs where bs: "fromhex cs = Inr bs" "2 * length bs = length cs" "hexlify bs = cs"
    by blast
  have "hexlify (char_of (16 * a + b) # bs) = c # d # cs"
    using bs(3) a b byte_nibbles [OF a(2) b(1)] by (simp add: hexlify_def)
  then show ?case
    using a b bs by simp
qed

lemma valid_checksum_sha:
  assumes "valid_checksum c"
  shows "fromhex c = Inr (sha_of c)" "length (sha_of c) = 20" "hexlify (sha_of c) = c"
proof -
  from assms fromhex_lowercase [of c] obtain bs where
    "fromhex c = Inr bs" "2 * length bs = length c" "hexlify bs = c"
    by (auto simp: valid_checksum_def)
  then show "fromhex c = Inr (sha_of c)" "length (sha_of c) = 20" "hexlify (sha_of c) = c"
    using assms by (simp_all add: sha_of_def valid_checksum_def)
qed

subsection \<open>Writing and reading one record\<close>

lemma length_string_image: "length (string_image s) = 4 + length s"
  by (simp add: string_image_def length_le32)

lemma write_string_short:
  assumes "short s"
  shows "write_string_to_handle h s = Inr (write_bytes (string_image s) h)"
  using assms
  by (simp add: write_string_to_handle_def pack_I_def short_def string_image_def write_bytes_append)

lemma write_strings_short:
  assumes "list_all short ss"
  shows "write_strings h ss = Inr (write_bytes (concat (map string_image ss)) h)"
  using assms
proof (induction ss arbitrary: h)
  case Nil
  then show ?case by (simp add: write_bytes_def)
next
  case (Cons s ss)
  then show ?case by (simp add: write_string_short write_bytes_append)
qed

lemma write_basic_valid:
  assumes "valid_time env (time e)" "valid_checksum (checksum e)"
  shows "BasicIndexEntry_write_to env e h = Inr (write_bytes (basic_image env e) h)"
proof -
  from assms(1) obtain ts where ts: "str_to_timestamp env (time e) = Inr ts" "0 \<le> ts" "ts < 4294967296"
    by (auto simp: valid_time_def split: sum.splits)
  then have "timestamp_of env (time e) = nat ts"
    by (simp add: timestamp_of_def)
  with ts valid_checksum_sha(1) [OF assms(2)] show ?thesis
    by (simp add: BasicIndexEntry_write_to_def write_timestamp_def pack_I_def basic_image_def
        write_bytes_append)
qed

lemma write_to_valid:
  assumes "valid_entry env e"
  shows "write_to env e h = Inr (write_bytes (entry_image env e) h)"
proof (cases "version e")
  case SlowLorris
  with assms show ?thesis
    by (simp add: write_to_def entry_image_def valid_entry_def write_basic_valid)
next
  case FastSloth
  with assms have v: "valid_time env (time e)" "valid_checksum (checksum e)"
    "short (type e)" "short (cmd e)" "short (workload e)" "short (collector e)"
    "length (postprocessors e) < 4294967296" "list_all short (postprocessors e)"
    by (simp_all add: valid_entry_def)
  show ?thesis
    using FastSloth v(7)
    by (simp add: write_to_def entry_image_def ExtendedIndexEntry_write_to_def
        write_basic_valid [OF v(1,2)] write_string_short [OF v(3)] write_string_short [OF v(4)]
        write_string_short [OF v(5)] write_string_short [OF v(6)] write_list_to_handle_def
        pack_I_def write_strings_short [OF v(8)] write_bytes_append extended_image_def)
qed

lemma read_strings_at:
  assumes "list_all short ss" "content h = pre @ concat (map string_image ss) @ rest"
    "pos h = length pre"
  shows "\<exists>h'. read_strings (length ss) h = Inr (ss, h') \<and> content h' = content h
    \<and> pos h' = length pre + length (concat (map string_image ss))"
  using assms
proof (induction ss arbitrary: pre h)
  case Nil
  then show ?case by simp
next
  case (Cons s ss)
  have c: "content h = pre @ le32 (length s) @ s @ concat (map string_image ss) @ rest"
    using Cons.prems(2) by (simp add: string_image_def [of s])
  from Cons.prems(1) have "length s < 4294967296"
    by (simp add: short_def)
  from read_string_at [OF c Cons.prems(3) this]
  obtain h1 where h1: "read_string_from_handle h = Inr (s, h1)" "content h1 = content h"
    "pos h1 = length pre + 4 + length s"
    by auto
  have "\<exists>h'. read_strings (length ss) h1 = Inr (ss, h') \<and> content h' = content h1
    \<and> pos h' = length (pre @ string_image s) + length (concat (map string_image ss))"
    using Cons.prems h1 by (intro Cons.IH) (simp_all add: length_string_image)
  with h1 show ?case
    by (auto simp: length_string_image)
qed

lemma read_list_at:
  assumes "list_all short ss" "length ss < 4294967296"
    "content h = pre @ le32 (length ss) @ concat (map string_image ss) @ rest"
    "pos h = length pre"
  shows "\<exists>h'. read_list_from_handle h = Inr (ss, h') \<and> content h' = content h
    \<and> pos h' = length pre + 4 + length (concat (map string_image ss))"
proof -
  from read_int_at [OF assms(3,4,2)]
  obtain h1 where h1: "read_int_from_handle h = Inr (length ss, h1)" "content h1 = content h"
    "pos h1 = length pre + 4"
    by auto
  have "\<exists>h'. read_strings (length ss) h1 = Inr (ss, h') \<and> content h' = content h1
    \<and> pos h' = length (pre @ le32 (length ss)) + length (concat (map string_image ss))"
    using assms h1 by (intro read_strings_at) (simp_all add: length_le32)
  with h1 show ?thesis
    by (auto simp: read_list_from_handle_def length_le32)
qed

lemma length_basic_image:
  assumes "valid_checksum (checksum e)"
  shows "length (basic_image env e) = 25 + length (path e)"
  using valid_checksum_sha(2) [OF assms] by (simp add: basic_image_def length_le32)

lemma read_basic_at:
  assumes "valid_time env (time e)" "valid_checksum (checksum e)" "CHR 0x00 \<notin> set (path e)"
    "content h = pre @ basic_image env e @ rest" "pos h = length pre"
  shows "\<exists>h'. BasicIndexEntry_read_from env h v
      = Inr (BasicIndexEntry (time e) (checksum e) (path e) (int (length pre)), h')
    \<and> content h' = content h \<and> pos h' = length pre + length (basic_image env e)"
proof -
  from assms(1) obtain ts where ts: "str_to_timestamp env (time e) = Inr ts" "0 \<le> ts"
    "ts < 4294967296" "timestamp_to_str env (nat ts) = time e"
    by (auto simp: valid_time_def split: sum.splits)
  then have tof: "timestamp_of env (time e) = nat ts"
    by (simp add: timestamp_of_def)
  note sha = valid_checksum_sha [OF assms(2)]
  let ?tail = "path e @ CHR 0x00 # rest"
  have c: "content h = pre @ le32 (nat ts) @ sha_of (checksum e) @ ?tail"
    using assms(4) by (simp add: basic_image_def tof)
  have "nat ts < 4294967296"
    using ts by simp
  from read_int_at [OF c assms(5) this]
  obtain h1 where h1: "read_int_from_handle h = Inr (nat ts, h1)" "content h1 = content h"
    "pos h1 = length pre + 4"
    by auto
  have "\<exists>h'. read (length (sha_of (checksum e))) h1 = (sha_of (checksum e), h')
    \<and> content h' = content h1
    \<and> pos h' = length (pre @ le32 (nat ts)) + length (sha_of (checksum e))"
    using c h1 by (intro read_at [where rest = "?tail"]) (simp_all add: length_le32)
  then obtain h2 where h2: "read 20 h1 = (sha_of (checksum e), h2)" "content h2 = content h"
    "pos h2 = length pre + 24"
    using sha(2) h1 by (auto simp: length_le32)
  have "\<exists>h'. read_path [] h2 = Inr ([] @ path e, h') \<and> content h' = content h2
    \<and> pos h' = length (pre @ le32 (nat ts) @ sha_of (checksum e)) + length (path e) + 1"
    using c assms(3) sha(2) h2
    by (intro read_path_at [where rest = rest]) (simp_all add: length_le32)
  then obtain h3 where h3: "read_path [] h2 = Inr (path e, h3)" "content h3 = content h"
    "pos h3 = length pre + 25 + length (path e)"
    using sha(2) h2 by (auto simp: length_le32)
  from h1 h2 h3 show ?thesis
    using sha ts
    by (simp add: BasicIndexEntry_read_from_def read_timestamp_from_file_def tell_def
        assms(5) length_basic_image [OF assms(2)])
qed

subsection \<open>Walking the bytes of an index\<close>

lemma length_extended_image:
  assumes "valid_checksum (checksum e)"
  shows "length (extended_image env e) \<ge> 45"
  by (simp add: extended_image_def length_basic_image [OF assms] length_string_image length_le32)

lemma extended_entry_image:
  assumes "extended_entry env e"
  shows "entry_image env e = extended_image env e" "length (entry_image env e) \<ge> 45"
  using assms length_extended_image [of e env]
  by (auto simp: extended_entry_def entry_image_def valid_entry_def)

lemma read_extended_at:
  assumes "extended_entry env e" "content h = pre @ entry_image env e @ rest"
    "pos h = length pre"
  shows "\<exists>h'. ExtendedIndexEntry_read_from env h FastSloth = Inr (e\<lparr>offset := int (length pre)\<rparr>, h')
    \<and> content h' = content h \<and> pos h' = length pre + length (entry_image env e)"
proof -
  from assms(1) have v: "valid_time env (time e)" "valid_checksum (checksum e)"
    "CHR 0x00 \<notin> set (path e)"
    "short (type e)" "short (cmd e)" "short (workload e)" "short (collector e)"
    "length (postprocessors e) < 4294967296" "list_all short (postprocessors e)"
    and fs: "version e = FastSloth"
    by (auto simp: extended_entry_def valid_entry_def)
  let ?posts = "le32 (length (postprocessors e)) @ concat (map string_image (postprocessors e))"
  let ?r4 = "?posts @ rest"
  let ?r3 = "string_image (collector e) @ ?r4"
  let ?r2 = "string_image (workload e) @ ?r3"
  let ?r1 = "string_image (cmd e) @ ?r2"
  let ?r0 = "string_image (type e) @ ?r1"
  have c: "content h = pre @ basic_image env e @ ?r0"
    using assms(2) fs by (simp add: entry_image_def extended_image_def)
  from read_basic_at [OF v(1,2,3) c assms(3), of SlowLorris]
  obtain h0 where h0: "BasicIndexEntry_read_from env h SlowLorris
      = Inr (BasicIndexEntry (time e) (checksum e) (path e) (int (length pre)), h0)"
    "content h0 = content h" "pos h0 = length pre + length (basic_image env e)"
    by auto
  have "\<exists>h'. read_string_from_handle h0 = Inr (type e, h') \<and> content h' = content h0
    \<and> pos h' = length (pre @ basic_image env e) + 4 + length (type e)"
    using c h0 v(4) by (intro read_string_at [where rest = "?r1"]) (simp_all add: string_image_def short_def)
  then obtain h1 where h1: "read_string_from_handle h0 = Inr (type e, h1)"
    "content h1 = content h"
    "pos h1 = length (pre @ basic_image env e @ string_image (type e))"
    using h0 by (auto simp: length_string_image)
  have "\<exists>h'. read_string_from_handle h1 = Inr (cmd e, h') \<and> content h' = content h1
    \<and> pos h' = length (pre @ basic_image env e @ string_image (type e)) + 4 + length (cmd e)"
    using c h1 v(5) by (intro read_string_at [where rest = "?r2"]) (simp_all add: string_image_def short_def)
  then obtain h2 where h2: "read_string_from_handle h1 = Inr (cmd e, h2)"
    "content h2 = content h"
    "pos h2 = length (pre @ basic_image env e @ string_image (type e) @ string_image (cmd e))"
    using h1 by (auto simp: length_string_image)
  have "\<exists>h'. read_string_from_handle h2 = Inr (workload e, h') \<and> content h' = content h2
    \<and> pos h' = length (pre @ basic_image env e @ string_image (type e) @ string_image (cmd e))
        + 4 + length (workload e)"
    using c h2 v(6) by (intro read_string_at [where rest = "?r3"]) (simp_all add: string_image_def short_def)
  then obtain h3 where h3: "read_string_from_handle h2 = Inr (workload e, h3)"
    "content h3 = content h"
    "pos h3 = length (pre @ basic_image env e @ string_image (type e) @ string_image (cmd e)
        @ string_image (workload e))"
    using h2 by (auto simp: length_string_image)
  have "\<exists>h'. read_string_from_handle h3 = Inr (collector e, h') \<and> content h' = content h3
    \<and> pos h' = length (pre @ basic_image env e @ string_image (type e) @ string_image (cmd e)
        @ string_image (workload e)) + 4 + length (collector e)"
    using c h3 v(7) by (intro read_string_at [where rest = "?r4"]) (simp_all add: string_image_def short_def)
  then obtain h4 where h4: "read_string_from_handle h3 = Inr (collector e, h4)"
    "content h4 = content h"
    "pos h4 = length (pre @ basic_image env e @ string_image (type e) @ string_image (cmd e)
        @ string_image (workload e) @ string_image (collector e))"
    using h3 by (auto simp: length_string_image)
  have "\<exists>h'. read_list_from_handle h4 = Inr (postprocessors e, h') \<and> content h' = content h4
    \<and> pos h' = length (pre @ basic_image env e @ string_image (type e) @ string_image (cmd e)
        @ string_image (workload e) @ string_image (collector e)) + 4
        + length (concat (map string_image (postprocessors e)))"
    using c h4 v(8,9) by (intro read_list_at [where rest = rest]) simp_all
  then obtain h5 where h5: "read_list_from_handle h4 = Inr (postprocessors e, h5)"
    "content h5 = content h"
    "pos h5 = length pre + length (entry_image env e)"
    using h4 fs by (auto simp: entry_image_def extended_image_def length_le32)
  have e: "ExtendedIndexEntry (time e) (checksum e) (path e) (int (length pre))
      \<lparr>header_type = type e, header_cmd = cmd e, header_workload = Some (workload e),
        collector_info_name = collector e, postprocessor_names = postprocessors e\<rparr>
    = e\<lparr>offset := int (length pre)\<rparr>"
    using fs by (cases e) (simp add: ExtendedIndexEntry_def)
  from h0 h1 h2 h3 h4 h5 e show ?thesis
    by (simp add: ExtendedIndexEntry_read_from_def read_from_same_index_def get_older_version_def
        IndexVersion_of_def BasicIndexEntry_def)
qed

lemma walk_loop_image:
  assumes "list_all (extended_entry env) es" "content h = pre @ body_image env es @ junk"
    "pos h = length pre" "length junk \<le> 24" "loaded \<le> number"
  shows "walk_loop env h (length (content h)) 2 number loaded
    = (take (number - loaded) (placed env (length pre) es),
       if length es < number - loaded then Mismatch else Exhausted)"
  using assms
proof (induction es arbitrary: pre h loaded)
  case Nil
  then show ?case
    by (subst walk_loop.simps) (auto simp: body_image_def tell_def)
next
  case (Cons e es)
  from Cons.prems have e: "extended_entry env e" and es: "list_all (extended_entry env) es"
    by simp_all
  have c: "content h = pre @ entry_image env e @ (body_image env es @ junk)"
    using Cons.prems(2) by (simp add: body_image_def)
  note len = extended_entry_image(2) [OF e]
  show ?case
  proof (cases "loaded < number")
    case False
    with Cons.prems show ?thesis
      by (subst walk_loop.simps) auto
  next
    case True
    from read_extended_at [OF e c Cons.prems(3)]
    obtain h' where h': "ExtendedIndexEntry_read_from env h FastSloth
        = Inr (e\<lparr>offset := int (length pre)\<rparr>, h')"
      "content h' = content h" "pos h' = length pre + length (entry_image env e)"
      by auto
    have "walk_loop env h' (length (content h')) 2 number (loaded + 1)
      = (take (number - (loaded + 1)) (placed env (length (pre @ entry_image env e)) es),
         if length es < number - (loaded + 1) then Mismatch else Exhausted)"
      using es c h' Cons.prems(4) True by (intro Cons.IH) simp_all
    moreover have "tell h + 24 < length (content h)"
      using c Cons.prems(3) len by (simp add: tell_def)
    moreover have "take (number - loaded) (placed env (length pre) (e # es))
      = e\<lparr>offset := int (length pre)\<rparr>
        # take (number - (loaded + 1)) (placed env (length pre + length (entry_image env e)) es)"
    proof -
      from True have "number - loaded = Suc (number - (loaded + 1))"
        by arith
      then show ?thesis
        by simp
    qed
    ultimately show ?thesis
      using True h'
      by (subst walk_loop.simps) (auto simp: IndexVersion_of_def)
  qed
qed

lemma length_magic: "length INDEX_MAGIC_PREFIX = 4"
  by (simp add: INDEX_MAGIC_PREFIX_def)

lemma length_index_header: "length (INDEX_MAGIC_PREFIX @ le32 v @ le32 c) = 12"
  by (simp add: length_magic length_le32)

lemma walk_index_image:
  assumes "list_all (extended_entry env) es" "content h = index_image env 2 c es @ junk"
    "length junk \<le> 24" "c < 4294967296"
  shows "walk_index env h
    = (take c (placed env 12 es), if length es < c then Mismatch else Exhausted)"
proof -
  let ?h1 = "seek 0 (seek_end h)"
  have ch1: "content ?h1 = content h" and p1: "pos ?h1 = 0"
    by (simp_all add: seek_def seek_end_def)
  let ?tail = "le32 2 @ le32 c @ body_image env es @ junk"
  have c0: "content ?h1 = [] @ INDEX_MAGIC_PREFIX @ ?tail"
    using assms(2) ch1 by (simp add: index_image_def)
  from read_at [OF c0] p1
  obtain h2 where h2: "read 4 ?h1 = (INDEX_MAGIC_PREFIX, h2)" "content h2 = content h" "pos h2 = 4"
    using ch1 by (auto simp: length_magic)
  have "\<exists>h'. read_int_from_handle h2 = Inr (2, h') \<and> content h' = content h2
    \<and> pos h' = length INDEX_MAGIC_PREFIX + 4"
    using h2 assms(2)
    by (intro read_int_at [where rest = "le32 c @ body_image env es @ junk"])
      (simp_all add: index_image_def length_magic)
  then obtain h3 where h3: "read_int_from_handle h2 = Inr (2, h3)" "content h3 = content h" "pos h3 = 8"
    using h2 by (auto simp: length_magic)
  have "\<exists>h'. read_int_from_handle h3 = Inr (c, h') \<and> content h' = content h3
    \<and> pos h' = length (INDEX_MAGIC_PREFIX @ le32 2) + 4"
    using h3 assms(2,4)
    by (intro read_int_at [where rest = "body_image env es @ junk"])
      (simp_all add: index_image_def length_magic length_le32)
  then obtain h4 where h4: "read_int_from_handle h3 = Inr (c, h4)" "content h4 = content h" "pos h4 = 12"
    using h3 by (auto simp: length_magic length_le32)
  have "walk_loop env h4 (length (content h4)) 2 c 0
    = (take (c - 0) (placed env (length (INDEX_MAGIC_PREFIX @ le32 2 @ le32 c)) es),
       if length es < c - 0 then Mismatch else Exhausted)"
    using assms h4
    by (intro walk_loop_image [where junk = junk])
      (simp_all add: index_image_def length_magic length_le32)
  with h2 h3 h4 show ?thesis
    by (simp add: walk_index_def Let_def tell_def seek_end_def seek_def INDEX_VERSION_def
        length_magic length_le32)
qed

subsection \<open>The header and the insertion of a record\<close>

lemma write_bytes_over:
  assumes "content h = pre @ old" "pos h = length pre"
  shows "content (write_bytes bs h) = pre @ bs @ drop (length bs) old"
    "pos (write_bytes bs h) = length pre + length bs"
  using assms by (simp_all add: write_bytes_def)

lemma pack_i_nat:
  assumes "n < 2147483648"
  shows "pack_i (int n) = Inr (le32 n)"
  using assms by (simp add: pack_i_def)

lemma modify_count:
  assumes "content h = INDEX_MAGIC_PREFIX @ le32 v @ le32 c @ body" "c < 4294967296"
    "pack_i (f (int c)) = Inr count_bytes" "length count_bytes = 4"
  shows "\<exists>h'. modify_number_of_entries_in_index h f = Inr h'
    \<and> content h' = INDEX_MAGIC_PREFIX @ le32 v @ count_bytes @ body \<and> pos h' = 12"
proof -
  let ?h0 = "seek INDEX_NUMBER_OF_ENTRIES_OFFSET h"
  have c0: "content ?h0 = (INDEX_MAGIC_PREFIX @ le32 v) @ le32 c @ body"
    and p0: "pos ?h0 = length (INDEX_MAGIC_PREFIX @ le32 v)"
    using assms(1) by (simp_all add: seek_def INDEX_NUMBER_OF_ENTRIES_OFFSET_def length_magic length_le32)
  from read_int_at [OF c0 p0 assms(2)]
  obtain h1 where h1: "read_int_from_handle ?h0 = Inr (c, h1)" "content h1 = content h"
    by (auto simp: seek_def)
  let ?h2 = "seek INDEX_NUMBER_OF_ENTRIES_OFFSET h1"
  have c2: "content ?h2 = (INDEX_MAGIC_PREFIX @ le32 v) @ (le32 c @ body)"
    and p2: "pos ?h2 = length (INDEX_MAGIC_PREFIX @ le32 v)"
    using assms(1) h1 by (simp_all add: seek_def INDEX_NUMBER_OF_ENTRIES_OFFSET_def length_magic length_le32)
  from write_bytes_over [OF c2 p2, of count_bytes] assms(4)
  have "content (write_bytes count_bytes ?h2) = INDEX_MAGIC_PREFIX @ le32 v @ count_bytes @ body"
    "pos (write_bytes count_bytes ?h2) = 12"
    by (simp_all add: length_le32 length_magic)
  with h1 assms(3) show ?thesis
    by (simp add: modify_number_of_entries_in_index_def)
qed

lemma update_version:
  assumes "content h = INDEX_MAGIC_PREFIX @ le32 v @ rest"
  shows "\<exists>h'. update_index_version h = Inr h' \<and> content h' = INDEX_MAGIC_PREFIX @ le32 2 @ rest"
proof -
  have c: "content (seek 4 h) = INDEX_MAGIC_PREFIX @ (le32 v @ rest)"
    and p: "pos (seek 4 h) = length INDEX_MAGIC_PREFIX"
    using assms by (simp_all add: seek_def length_magic)
  from write_bytes_over(1) [OF c p, of "le32 2"]
  have "content (write_bytes (le32 2) (seek 4 h)) = INDEX_MAGIC_PREFIX @ le32 2 @ rest"
    by (simp add: length_le32)
  then show ?thesis
    by (simp add: update_index_version_def INDEX_VERSION_def pack_i_def seek_def)
qed

lemma write_entry_at_bytes:
  assumes "content h = INDEX_MAGIC_PREFIX @ le32 v @ le32 c @ front @ behind"
    "c < 2147483647" "valid_entry env e" "off = int (12 + length front)"
  shows "\<exists>h'. write_entry_at env h off e = Inr h'
    \<and> content h' = INDEX_MAGIC_PREFIX @ le32 2 @ le32 (c + 1) @ front @ entry_image env e @ behind"
proof -
  have pk: "pack_i (int c + 1) = Inr (le32 (c + 1))"
    using assms(2) pack_i_nat [of "c + 1"] by (simp add: add.commute)
  from modify_count [where f = "\<lambda>x. x + 1" and count_bytes = "le32 (c + 1)", OF assms(1)]
    pk assms(2)
  obtain h1 where h1: "modify_number_of_entries_in_index h (\<lambda>x. x + 1) = Inr h1"
    "content h1 = INDEX_MAGIC_PREFIX @ le32 v @ le32 (c + 1) @ front @ behind"
    by (auto simp: length_le32)
  let ?pre = "INDEX_MAGIC_PREFIX @ le32 v @ le32 (c + 1) @ front"
  have n: "nat off = length ?pre"
    using assms(4) by (simp add: length_magic length_le32)
  let ?h1 = "seek (nat off) h1"
  have "read_all ?h1 = (behind, ?h1\<lparr>pos := length ?pre + length behind\<rparr>)"
    using h1 n by (intro read_all_at) (simp_all add: seek_def)
  then obtain h2 where h2: "read_all ?h1 = (behind, h2)" "content h2 = content h1"
    by (simp add: seek_def)
  let ?h3 = "seek (nat off) h2"
  have c3: "content ?h3 = ?pre @ behind" and p3: "pos ?h3 = length ?pre"
    using h1 h2 n by (simp_all add: seek_def)
  have w: "write_to env e ?h3 = Inr (write_bytes (entry_image env e) ?h3)"
    by (rule write_to_valid [OF assms(3)])
  have "content (write_bytes (entry_image env e @ behind) ?h3)
    = ?pre @ (entry_image env e @ behind) @ drop (length (entry_image env e @ behind)) behind"
    by (rule write_bytes_over(1) [OF c3 p3])
  then have c4: "content (write_bytes behind (write_bytes (entry_image env e) ?h3))
    = INDEX_MAGIC_PREFIX @ le32 v @ (le32 (c + 1) @ front @ entry_image env e @ behind)"
    by (simp add: write_bytes_append)
  from update_version [OF c4]
  obtain h5 where "update_index_version (write_bytes behind (write_bytes (entry_image env e) ?h3)) = Inr h5"
    "content h5 = INDEX_MAGIC_PREFIX @ le32 2 @ le32 (c + 1) @ front @ entry_image env e @ behind"
    by auto
  with h1 h2 w assms(4) show ?thesis
    by (simp add: write_entry_at_def)
qed

lemma write_entries_valid:
  assumes "list_all (valid_entry env) es"
  shows "write_entries env es h = Inr (write_bytes (body_image env es) h)"
  using assms
proof (induction es arbitrary: h)
  case Nil
  then show ?case by (simp add: body_image_def write_bytes_def)
next
  case (Cons e es)
  then show ?case
    by (simp add: write_to_valid write_bytes_append body_image_def)
qed

lemma write_list_of_entries_image:
  assumes "list_all (valid_entry env) es" "length es < 2147483648"
  shows "write_list_of_entries env es = Inr (index_image env 2 (length es) es)"
proof -
  let ?h = "truncate_to 0 (open_handle [])"
  have h: "content ?h = [] @ []" "pos ?h = length ([] :: string)"
    by (simp_all add: truncate_to_def open_handle_def)
  have "content (write_bytes (INDEX_MAGIC_PREFIX @ le32 2 @ le32 0) ?h)
    = INDEX_MAGIC_PREFIX @ le32 2 @ le32 0 @ []"
    using write_bytes_over(1) [OF h, of "INDEX_MAGIC_PREFIX @ le32 2 @ le32 0"] by simp
  then obtain h1 where h1: "initialize_index_in_handle ?h = Inr h1"
    "content h1 = INDEX_MAGIC_PREFIX @ le32 2 @ le32 0 @ []"
    by (simp add: initialize_index_in_handle_def INDEX_VERSION_def pack_i_def write_bytes_append)
  from modify_count [where f = "\<lambda>x. int (length es)" and count_bytes = "le32 (length es)",
      OF h1(2)] assms(2)
  obtain h2 where h2: "modify_number_of_entries_in_index h1 (\<lambda>x. int (length es)) = Inr h2"
    "content h2 = INDEX_MAGIC_PREFIX @ le32 2 @ le32 (length es) @ []"
    by (auto simp: pack_i_nat length_le32)
  let ?h3 = "seek INDEX_ENTRIES_START_OFFSET h2"
  have c3: "content ?h3 = (INDEX_MAGIC_PREFIX @ le32 2 @ le32 (length es)) @ []"
    and p3: "pos ?h3 = length (INDEX_MAGIC_PREFIX @ le32 2 @ le32 (length es))"
    using h2 by (simp_all add: seek_def INDEX_ENTRIES_START_OFFSET_def length_magic length_le32)
  from write_bytes_over(1) [OF c3 p3, of "body_image env es"]
  have "content (write_bytes (body_image env es) ?h3) = index_image env 2 (length es) es"
    by (simp add: index_image_def)
  with h1 h2 show ?thesis
    by (simp add: write_list_of_entries_def Let_def write_entries_valid [OF assms(1)])
qed

subsection \<open>The header checks of the walker\<close>

lemma walk_index_version_error:
  assumes "take 4 (content h) = INDEX_MAGIC_PREFIX" "8 \<le> length (content h)"
    "int (format_version (content h)) > INDEX_VERSION"
  shows "walk_index env h
    = ([], Raised (MalformedIndexFileException (version_message (format_version (content h)))))"
  using assms
  by (simp add: walk_index_def Let_def seek_def seek_end_def tell_def read_def
      read_int_from_handle_def format_version_def)

lemma walk_index_magic_error:
  assumes "take 4 (content h) \<noteq> INDEX_MAGIC_PREFIX"
  shows "walk_index env h
    = ([], Raised (MalformedIndexFileException ''read blob is not an index file''))"
  using assms
  by (simp add: walk_index_def Let_def seek_def seek_end_def tell_def read_def)

lemma take_magic: "take 4 (INDEX_MAGIC_PREFIX @ rest) = INDEX_MAGIC_PREFIX"
  by (simp add: length_magic)

lemma format_version_header:
  assumes "v < 4294967296"
  shows "format_version (INDEX_MAGIC_PREFIX @ le32 v @ rest) = v"
  using assms by (simp add: format_version_def length_magic length_le32 un_le32_le32)

lemma entry_count_header:
  assumes "c < 4294967296"
  shows "entry_count (INDEX_MAGIC_PREFIX @ le32 v @ le32 c @ rest) = c"
  using assms by (simp add: entry_count_def length_magic length_le32 un_le32_le32)

subsection \<open>The examples, and an entry written and read again\<close>

lemma str_nat_digit: "n < 10 \<Longrightarrow> str_nat n = [''0123456789'' ! n]"
  by (simp add: str_nat.simps)

lemma valid_checksums: "valid_checksum example_checksum" "valid_checksum other_checksum"
  by (simp_all add: valid_checksum_def example_checksum_def other_checksum_def lowercase_hex_def)

lemma valid_times:
  "valid_time example_externals ''5''" "valid_time example_externals ''6''"
  "valid_time example_externals ''7''"
  by (simp_all add: valid_time_def example_externals_def parse_decimal_def str_nat_digit)

lemma extended_examples:
  "extended_entry example_externals entry_a" "extended_entry example_externals entry_a_later"
  "extended_entry example_externals entry_b"
  by (simp_all add: extended_entry_def valid_entry_def entry_a_def entry_a_later_def entry_b_def
      ExtendedIndexEntry_def valid_checksums valid_times short_def)

lemma entry_image_offset [simp]: "entry_image env (e\<lparr>offset := p\<rparr>) = entry_image env e"
  by (cases "version e") (simp_all add: entry_image_def basic_image_def extended_image_def)

lemma valid_entry_offset [simp]: "valid_entry env (e\<lparr>offset := p\<rparr>) = valid_entry env e"
  by (cases "version e") (simp_all add: valid_entry_def)

lemma extended_entry_offset [simp]: "extended_entry env (e\<lparr>offset := p\<rparr>) = extended_entry env e"
  by (simp add: extended_entry_def)

lemma decode_encoded_valid:
  assumes "valid_entry env e"
  shows "decode_encoded env before e = Inr (e\<lparr>offset := int (length before)\<rparr>)"
proof -
  let ?start = "\<lparr>content = before, pos = length before\<rparr>"
  have w: "write_to env e ?start = Inr (write_bytes (entry_image env e) ?start)"
    by (rule write_to_valid [OF assms])
  let ?reread = "seek (length before) (write_bytes (entry_image env e) ?start)"
  have c: "content ?reread = before @ entry_image env e @ []" and p: "pos ?reread = length before"
    using write_bytes_over(1) [where h = ?start and pre = before and old = "[]"
        and bs = "entry_image env e"]
    by (simp_all add: seek_def)
  have "\<exists>h'. read_from env (version e) ?reread = Inr (e\<lparr>offset := int (length before)\<rparr>, h')"
  proof (cases "version e")
    case SlowLorris
    with assms have v: "valid_time env (time e)" "valid_checksum (checksum e)"
      "CHR 0x00 \<notin> set (path e)"
      and b: "BasicIndexEntry (time e) (checksum e) (path e) (int (length before))
        = e\<lparr>offset := int (length before)\<rparr>"
      by (cases e; simp add: valid_entry_def BasicIndexEntry_def)+
    have "content ?reread = before @ basic_image env e @ []"
      using c SlowLorris by (simp add: entry_image_def)
    from read_basic_at [OF v this p, of SlowLorris] b SlowLorris show ?thesis
      by (auto simp: read_from_def)
  next
    case FastSloth
    with assms have "extended_entry env e"
      by (simp add: extended_entry_def)
    from read_extended_at [OF this c p] FastSloth show ?thesis
      by (auto simp: read_from_def)
  qed
  with w show ?thesis
    by (auto simp: decode_encoded_def)
qed

lemma entry_eq_offset: "entry_eq (e\<lparr>offset := p\<rparr>) e \<longleftrightarrow> offset e = p"
  by (auto simp: entry_eq_def)

lemma write_entry_to_index_at_offset:
  assumes "offset e = int (12 + length front)" "valid_entry env e" "c < 2147483647"
  shows "write_entry_to_index env index_file
      (INDEX_MAGIC_PREFIX @ le32 v @ le32 c @ front @ behind) e
    = Inr (INDEX_MAGIC_PREFIX @ le32 2 @ le32 (c + 1) @ front @ entry_image env e @ behind, [])"
proof -
  let ?h = "open_handle (INDEX_MAGIC_PREFIX @ le32 v @ le32 c @ front @ behind)"
  have "content ?h = INDEX_MAGIC_PREFIX @ le32 v @ le32 c @ front @ behind"
    by (simp add: open_handle_def)
  from write_entry_at_bytes [OF this assms(3,2,1)]
  obtain h' where "write_entry_at env ?h (offset e) e = Inr h'"
    "content h' = INDEX_MAGIC_PREFIX @ le32 2 @ le32 (c + 1) @ front @ entry_image env e @ behind"
    by auto
  moreover have "lookup_offset env index_file ?h e = Inr (Some (offset e), [])"
    using assms(1) by (simp add: lookup_offset_def)
  ultimately show ?thesis
    by (simp add: write_entry_to_index_def Let_def)
qed

subsection \<open>Insertion with the sentinel\<close>

lemma body_image_simps [simp]:
  "body_image env [] = []"
  "body_image env (e # es) = entry_image env e @ body_image env es"
  "body_image env (xs @ ys) = body_image env xs @ body_image env ys"
  by (simp_all add: body_image_def)

lemma length_placed [simp]: "length (placed env p es) = length es"
  by (induction es arbitrary: p) simp_all

lemma find_placed_none:
  assumes "\<And>x q. P (x\<lparr>offset := q\<rparr>) = P x" "\<forall>x\<in>set es. \<not> P x"
  shows "find P (placed env p es) = None"
  using assms(2) by (induction es arbitrary: p) (simp_all add: assms(1))

lemma find_placed_some:
  assumes "\<And>x q. P (x\<lparr>offset := q\<rparr>) = P x" "\<forall>x\<in>set front. \<not> P x" "P y"
  shows "find P (placed env p (front @ y # behind))
    = Some (y\<lparr>offset := int (p + length (body_image env front))\<rparr>)"
  using assms(2) by (induction front arbitrary: p) (simp_all add: assms(1,3) add.assoc)

lemma insertion_predicate_offset [simp]:
  "insertion_predicate e (x\<lparr>offset := q\<rparr>) = insertion_predicate e x"
  by (simp add: insertion_predicate_def)

lemma walk_index_consistent:
  assumes "list_all (extended_entry env) es" "length es < 4294967296"
  shows "walk_index env (open_handle (index_image env 2 (length es) es))
    = (placed env 12 es, Exhausted)"
  using walk_index_image [OF assms(1), of "open_handle (index_image env 2 (length es) es)"
      "length es" "[]"] assms(2)
  by (simp add: open_handle_def)

lemma write_entry_to_index_sentinel:
  assumes "list_all (extended_entry env) es" "valid_entry env e" "offset e = - 1"
    "length es < 2147483647"
  shows "write_entry_to_index env index_file (index_image env 2 (length es) es) e
    = Inr (index_image env 2 (length (insert_entry e es)) (insert_entry e es),
           if registered e es then [already_registered e index_file] else [])"
proof -
  let ?bytes = "index_image env 2 (length es) es"
  let ?hd = "open_handle ?bytes"
  let ?P = "insertion_predicate e"
  let ?front = "takeWhile (\<lambda>x. \<not> ?P x) es"
  let ?behind = "dropWhile (\<lambda>x. \<not> ?P x) es"
  have walk: "walk_index env ?hd = (placed env 12 es, Exhausted)"
    using assms by (intro walk_index_consistent) simp_all
  have split: "body_image env es = body_image env ?front @ body_image env ?behind"
    by (metis body_image_simps(3) takeWhile_dropWhile_id)
  have c: "content ?hd
    = INDEX_MAGIC_PREFIX @ le32 2 @ le32 (length es) @ body_image env ?front @ body_image env ?behind"
    using split by (simp add: open_handle_def index_image_def)
  have len: "length ?bytes = 12 + length (body_image env es)"
    by (simp add: index_image_def length_magic length_le32)
  show ?thesis
  proof (cases ?behind)
    case Nil
    then have front: "?front = es"
      by (metis append_Nil2 takeWhile_dropWhile_id)
    from Nil have "\<forall>x\<in>set es. \<not> ?P x"
      by simp
    then have "find ?P (placed env 12 es) = None"
      by (intro find_placed_none) simp_all
    then have l: "lookup_offset env index_file ?hd e
      = Inr (Some (int (12 + length (body_image env ?front))), [])"
      using walk assms(3) len unfolding front
      by (simp add: lookup_offset_def lookup_entry_within_index_def seek_end_def
          tell_def open_handle_def)
    from write_entry_at_bytes [OF c assms(4,2) refl]
    obtain h' where h': "write_entry_at env ?hd (int (12 + length (body_image env ?front))) e = Inr h'"
      "content h' = INDEX_MAGIC_PREFIX @ le32 2 @ le32 (length es + 1) @ body_image env ?front
        @ entry_image env e @ body_image env ?behind"
      by auto
    have "insert_entry e es = es @ [e]" "\<not> registered e es"
      unfolding insert_entry_def registered_def Nil by simp_all
    moreover have "content h' = index_image env 2 (length (es @ [e])) (es @ [e])"
      unfolding h'(2) Nil front by (simp add: index_image_def)
    ultimately show ?thesis
      using l h'(1) by (simp add: write_entry_to_index_def Let_def)
  next
    case (Cons y ys)
    have es: "es = ?front @ y # ys"
      using Cons by (metis takeWhile_dropWhile_id)
    have "?P y"
      using Cons by (metis hd_dropWhile list.distinct(1) list.sel(1))
    then have "find ?P (placed env 12 (?front @ y # ys))
      = Some (y\<lparr>offset := int (12 + length (body_image env ?front))\<rparr>)"
      by (intro find_placed_some) (auto dest: set_takeWhileD)
    then have f: "find ?P (placed env 12 es)
      = Some (y\<lparr>offset := int (12 + length (body_image env ?front))\<rparr>)"
      using es by simp
    show ?thesis
    proof (cases "path y = path e \<and> time y = time e")
      case True
      have "lookup_offset env index_file ?hd e = Inr (None, [already_registered e index_file])"
        using walk f assms(3) True
        by (simp add: lookup_offset_def lookup_entry_within_index_def)
      moreover have "insert_entry e es = es" "registered e es"
        unfolding insert_entry_def registered_def Cons using True by auto
      ultimately show ?thesis
        by (simp add: write_entry_to_index_def Let_def)
    next
      case False
      have l: "lookup_offset env index_file ?hd e
        = Inr (Some (int (12 + length (body_image env ?front))), [])"
        using walk f assms(3) False
        by (simp add: lookup_offset_def lookup_entry_within_index_def)
      from write_entry_at_bytes [OF c assms(4,2) refl]
      obtain h' where h': "write_entry_at env ?hd (int (12 + length (body_image env ?front))) e = Inr h'"
        "content h' = INDEX_MAGIC_PREFIX @ le32 2 @ le32 (length es + 1) @ body_image env ?front
          @ entry_image env e @ body_image env ?behind"
        by auto
      have ins: "insert_entry e es = ?front @ e # ?behind" "\<not> registered e es"
        unfolding insert_entry_def registered_def Cons using False by auto
      have "?front @ ?behind = es"
        by (rule takeWhile_dropWhile_id)
      then have "length ?front + length ?behind = length es"
        by (metis length_append)
      then have "length (?front @ e # ?behind) = length es + 1"
        by simp
      then have "content h' = index_image env 2 (length (?front @ e # ?behind)) (?front @ e # ?behind)"
        unfolding h'(2) by (simp add: index_image_def)
      with ins show ?thesis
        using l h'(1) by (simp add: write_entry_to_index_def Let_def)
    qed
  qed
qed

subsection \<open>The order of the records\<close>

lemma entry_before_trans: "entry_before a b \<Longrightarrow> entry_before b c \<Longrightarrow> entry_before a c"
  by (auto simp: entry_before_def)

lemma not_insertion_predicate: "\<not> insertion_predicate e x \<longleftrightarrow> entry_before x e"
  by (auto simp: insertion_predicate_def entry_before_def)

lemma insertion_predicate_before:
  assumes "insertion_predicate e y" "\<not> (path y = path e \<and> time y = time e)"
  shows "entry_before e y"
  using assms by (auto simp: insertion_predicate_def entry_before_def)

lemma sorted_insert_entry:
  assumes "sorted_wrt entry_before es"
  shows "sorted_wrt entry_before (insert_entry e es)"
proof -
  let ?P = "insertion_predicate e"
  let ?front = "takeWhile (\<lambda>x. \<not> ?P x) es"
  let ?behind = "dropWhile (\<lambda>x. \<not> ?P x) es"
  have front: "\<forall>x\<in>set ?front. entry_before x e"
    by (auto dest: set_takeWhileD simp: not_insertion_predicate)
  have id: "?front @ ?behind = es"
    by (rule takeWhile_dropWhile_id)
  show ?thesis
  proof (cases ?behind)
    case Nil
    then have "?front = es"
      using id by simp
    moreover have "insert_entry e es = es @ [e]"
      unfolding insert_entry_def Nil by simp
    ultimately show ?thesis
      using front assms by (simp add: sorted_wrt_append not_insertion_predicate)
  next
    case (Cons y ys)
    show ?thesis
    proof (cases "path y = path e \<and> time y = time e")
      case True
      then have "insert_entry e es = es"
        unfolding insert_entry_def Cons by auto
      with assms show ?thesis
        by simp
    next
      case False
      then have ins: "insert_entry e es = ?front @ e # y # ys"
        unfolding insert_entry_def Cons by auto
      have "?P y"
        using Cons by (metis hd_dropWhile list.distinct(1) list.sel(1))
      then have ey: "entry_before e y"
        using False by (rule insertion_predicate_before)
      from assms id Cons have s: "sorted_wrt entry_before (?front @ y # ys)"
        by simp
      then have "\<forall>z\<in>set ys. entry_before y z"
        by (simp add: sorted_wrt_append)
      with ey have "\<forall>z\<in>set (y # ys). entry_before e z"
        by (auto intro: entry_before_trans)
      with s front have "sorted_wrt entry_before (?front @ e # y # ys)"
        by (auto simp: sorted_wrt_append)
      with ins show ?thesis
        by simp
    qed
  qed
qed

lemma set_insert_entry: "set (insert_entry e es) \<subseteq> insert e (set es)"
proof -
  have "set (takeWhile (\<lambda>x. \<not> insertion_predicate e x) es) \<subseteq> set es"
    by (auto dest: set_takeWhileD)
  moreover have "set (dropWhile (\<lambda>x. \<not> insertion_predicate e x) es) \<subseteq> set es"
    by (auto dest: set_dropWhileD)
  ultimately show ?thesis
    by (auto simp: insert_entry_def split: list.splits if_splits)
qed

lemma length_insert_entry: "length (insert_entry e es) \<le> length es + 1"
proof -
  have "length (takeWhile (\<lambda>x. \<not> insertion_predicate e x) es)
      + length (dropWhile (\<lambda>x. \<not> insertion_predicate e x) es) = length es"
    by (metis length_append takeWhile_dropWhile_id)
  then show ?thesis
    by (auto simp: insert_entry_def split: list.splits)
qed

lemma write_entries_to_index_image:
  assumes "list_all (extended_entry env) es" "sorted_wrt entry_before es"
    "list_all (\<lambda>e. extended_entry env e \<and> offset e = - 1) new"
    "length es + length new < 2147483648"
  shows "\<exists>es'. write_entries_to_index env index_file (index_image env 2 (length es) es) new
      = Inr (index_image env 2 (length es') es')
    \<and> list_all (extended_entry env) es' \<and> sorted_wrt entry_before es'
    \<and> length es' < 2147483648"
  using assms
proof (induction new arbitrary: es)
  case Nil
  then show ?case by auto
next
  case (Cons e new)
  from Cons.prems have e: "extended_entry env e" "offset e = - 1" "valid_entry env e"
    by (simp_all add: extended_entry_def)
  have w: "write_entry_to_index env index_file (index_image env 2 (length es) es) e
    = Inr (index_image env 2 (length (insert_entry e es)) (insert_entry e es),
           if registered e es then [already_registered e index_file] else [])"
    using Cons.prems e by (intro write_entry_to_index_sentinel) simp_all
  have 1: "list_all (extended_entry env) (insert_entry e es)"
    using Cons.prems(1) e(1) set_insert_entry [of e es] by (auto simp: list_all_iff)
  have 2: "sorted_wrt entry_before (insert_entry e es)"
    using Cons.prems(2) by (rule sorted_insert_entry)
  have 3: "length (insert_entry e es) + length new < 2147483648"
    using Cons.prems(4) length_insert_entry [of e es] by simp
  from Cons.IH [OF 1 2 _ 3] Cons.prems(3) w show ?case
    by simp
qed

lemma touch_index_fresh: "touch_index None = Inr (index_image env 2 0 [])"
proof -
  have "content (open_handle []) = [] @ []" "pos (open_handle []) = length ([] :: string)"
    by (simp_all add: open_handle_def)
  from write_bytes_over(1) [OF this, of "INDEX_MAGIC_PREFIX @ le32 2 @ le32 0"]
  show ?thesis
    by (simp add: touch_index_def initialize_index_in_handle_def INDEX_VERSION_def pack_i_def
        write_bytes_append index_image_def)
qed

lemma sorted_placed:
  "sorted_wrt entry_before (placed env p es) = sorted_wrt entry_before es"
proof -
  have m: "map (\<lambda>e. (path e, time e)) (placed env p es) = map (\<lambda>e. (path e, time e)) es"
    by (induction es arbitrary: p) simp_all
  have eb: "entry_before = (\<lambda>a b. path a < path b \<or> (path a = path b \<and> time a < time b))"
    by (intro ext) (simp add: entry_before_def)
  have "sorted_wrt entry_before xs
    = sorted_wrt (\<lambda>a b. fst a < fst b \<or> (fst a = fst b \<and> snd a < snd b))
        (map (\<lambda>e. (path e, time e)) xs)" for xs
    by (simp add: sorted_wrt_map eb)
  with m show ?thesis
    by simp
qed

lemma registered_in_sorted:
  assumes "sorted_wrt entry_before es" "y \<in> set es" "path y = path e" "time y = time e"
  shows "registered e es"
proof -
  let ?P = "insertion_predicate e"
  let ?front = "takeWhile (\<lambda>x. \<not> ?P x) es"
  let ?behind = "dropWhile (\<lambda>x. \<not> ?P x) es"
  have py: "?P y"
    using assms(3,4) by (simp add: insertion_predicate_def)
  then have "y \<notin> set ?front"
    by (auto dest: set_takeWhileD)
  with assms(2) have yb: "y \<in> set ?behind"
    by (metis Un_iff set_append takeWhile_dropWhile_id)
  then obtain z zs where bk: "?behind = z # zs"
    by (cases ?behind) auto
  have pz: "?P z"
    using bk by (metis hd_dropWhile list.distinct(1) list.sel(1))
  have "path z = path e \<and> time z = time e"
  proof (cases "y = z")
    case True
    with assms(3,4) show ?thesis by simp
  next
    case False
    with yb bk have "y \<in> set zs"
      by simp
    moreover have "sorted_wrt entry_before (?front @ z # zs)"
      using assms(1) bk by (metis takeWhile_dropWhile_id)
    ultimately have "entry_before z y"
      by (simp add: sorted_wrt_append)
    with pz assms(3,4) show ?thesis
      by (auto simp: insertion_predicate_def entry_before_def)
  qed
  with bk show ?thesis
    by (simp add: registered_def)
qed

lemma write_entry_to_index_duplicate:
  assumes "list_all (extended_entry env) es" "length es < 4294967296" "offset e = - 1"
    "registered e es"
  shows "write_entry_to_index env index_file (index_image env 2 (length es) es) e
    = Inr (index_image env 2 (length es) es, [already_registered e index_file])"
proof -
  let ?P = "insertion_predicate e"
  let ?front = "takeWhile (\<lambda>x. \<not> ?P x) es"
  from assms(4) obtain y ys where bk: "dropWhile (\<lambda>x. \<not> ?P x) es = y # ys"
    and y: "path y = path e" "time y = time e"
    by (auto simp: registered_def split: list.splits)
  have es: "es = ?front @ y # ys"
    using bk by (metis takeWhile_dropWhile_id)
  have "?P y"
    using y by (simp add: insertion_predicate_def)
  then have "find ?P (placed env 12 (?front @ y # ys))
    = Some (y\<lparr>offset := int (12 + length (body_image env ?front))\<rparr>)"
    by (intro find_placed_some) (auto dest: set_takeWhileD)
  then have "find ?P (placed env 12 es)
    = Some (y\<lparr>offset := int (12 + length (body_image env ?front))\<rparr>)"
    using es by simp
  moreover have "walk_index env (open_handle (index_image env 2 (length es) es))
    = (placed env 12 es, Exhausted)"
    using assms(1,2) by (rule walk_index_consistent)
  ultimately have "lookup_offset env index_file (open_handle (index_image env 2 (length es) es)) e
    = Inr (None, [already_registered e index_file])"
    using assms(3) y by (simp add: lookup_offset_def lookup_entry_within_index_def)
  then show ?thesis
    by (simp add: write_entry_to_index_def Let_def)
qed

lemma example_order:
  "entry_before entry_a entry_b" "\<not> entry_before entry_b entry_a"
  "entry_before entry_a entry_a_later"
  by (simp_all add: entry_before_def entry_a_def entry_b_def entry_a_later_def
      ExtendedIndexEntry_def)

lemma example_offsets:
  "offset entry_a = - 1" "offset entry_b = - 1" "offset entry_a_later = - 1"
  by (simp_all add: entry_a_def entry_b_def entry_a_later_def ExtendedIndexEntry_def)

lemma length_index_image:
  "length (index_image env v c es) = 12 + length (body_image env es)"
  by (simp add: index_image_def length_magic length_le32)

subsection \<open>Removal, from what the walker yields\<close>

lemma lookup_walked:
  assumes "walk_index env h = (all_entries, Exhausted)"
  shows "lookup_entry_within_index env h P name
    = (case find P all_entries of
         Some entry \<Rightarrow> ([], Inr entry)
       | None \<Rightarrow> ([], Inl (EntryNotFoundException name)))"
  using assms by (simp add: lookup_entry_within_index_def split: option.splits)

lemma lookup_removed_walked:
  assumes "walk_index env h = (all_entries, Exhausted)"
  shows "\<exists>n' events'. lookup_removed env h keys (removed_entries, n, events)
    = Inr (removed_entries @ first_matches env keys all_entries, n', events')"
proof (induction keys arbitrary: removed_entries n events)
  case Nil
  then show ?case
    by (simp add: first_matches_def)
next
  case (Cons k keys)
  show ?case
  proof (cases "find (lookup_function env k) all_entries")
    case None
    with Cons.IH [of removed_entries "n - 1" "events @ [] @ [MinorFail k ''not found'']"]
    show ?thesis
      by (simp add: lookup_walked [OF assms] first_matches_def)
  next
    case (Some found_entry)
    with Cons.IH [of "removed_entries @ [found_entry]" n
        "events @ [] @ [MinorSuccess (path found_entry) ''deregistered'']"]
    show ?thesis
      by (simp add: lookup_walked [OF assms] first_matches_def)
  qed
qed

lemma write_kept_valid:
  assumes "list_all (valid_entry env) all_entries"
  shows "write_kept env all_entries removed_entries h
    = Inr (write_bytes (body_image env (kept_entries all_entries removed_entries)) h)"
  using assms
proof (induction all_entries arbitrary: h)
  case Nil
  then show ?case
    by (simp add: kept_entries_def write_bytes_def)
next
  case (Cons e all_entries)
  then show ?case
    by (simp add: kept_entries_def write_to_valid write_bytes_append)
qed

lemma pack_i_stored:
  assumes "- 2147483648 \<le> n" "n < 2147483648"
  shows "pack_i n = Inr (le32 (stored_count n))"
  using assms by (simp add: pack_i_def stored_count_def)

lemma remove_from_index_walked:
  assumes "walk_index env (open_handle bytes) = (all_entries, Exhausted)"
    "bytes = INDEX_MAGIC_PREFIX @ le32 v @ le32 c @ body"
    "list_all (valid_entry env) all_entries" "sorted (map offset all_entries)"
    "length all_entries < 2147483648" "keys \<noteq> []" "length keys \<le> 2147483648"
  shows "map_sum id fst (remove_from_index env (Some bytes) keys)
    = Inr (Some (INDEX_MAGIC_PREFIX @ le32 v
        @ le32 (stored_count (int (length all_entries)
              - int (length (first_matches env keys all_entries))))
        @ body_image env (kept_entries all_entries (first_matches env keys all_entries))))"
proof -
  let ?start = "open_handle bytes"
  let ?removed = "first_matches env keys all_entries"
  let ?kept = "kept_entries all_entries ?removed"
  let ?count = "int (length all_entries) - int (length ?removed)"
  have walked: "list_walk_index env ?start = Inr (all_entries, [])"
    using assms(1) by (simp add: list_walk_index_def)
  have sorted: "sort_key offset all_entries = all_entries"
    using assms(4) by (rule sort_key_id_if_sorted)
  from lookup_removed_walked [OF assms(1), of keys "[]" "length keys"
      "[MajorInfo ''Removing from index''] @ []"]
  obtain n' events' where looked: "lookup_removed env ?start keys
      ([], length keys, [MajorInfo ''Removing from index''] @ [])
    = Inr (?removed, n', events')"
    by auto
  have "length ?removed \<le> length keys"
    by (simp add: first_matches_def map_filter_def)
  then have pk: "pack_i ?count = Inr (le32 (stored_count ?count))"
    using assms(5,7) by (intro pack_i_stored) simp_all
  let ?at8 = "seek INDEX_NUMBER_OF_ENTRIES_OFFSET ?start"
  have c8: "content ?at8 = (INDEX_MAGIC_PREFIX @ le32 v) @ (le32 c @ body)"
    and p8: "pos ?at8 = length (INDEX_MAGIC_PREFIX @ le32 v)"
    using assms(2)
    by (simp_all add: seek_def open_handle_def INDEX_NUMBER_OF_ENTRIES_OFFSET_def length_magic
        length_le32)
  let ?counted = "write_bytes (le32 (stored_count ?count)) ?at8"
  let ?header = "INDEX_MAGIC_PREFIX @ le32 v @ le32 (stored_count ?count)"
  from write_bytes_over [OF c8 p8, of "le32 (stored_count ?count)"]
  have cc: "content ?counted = ?header @ body" and pc: "pos ?counted = length ?header"
    by (simp_all add: length_le32)
  let ?written = "write_bytes (body_image env ?kept) ?counted"
  from write_bytes_over [OF cc pc, of "body_image env ?kept"]
  have cw: "content ?written
      = ?header @ body_image env ?kept @ drop (length (body_image env ?kept)) body"
    and pw: "pos ?written = length (?header @ body_image env ?kept)"
    by simp_all
  have "content (truncate_here ?written) = ?header @ body_image env ?kept"
    unfolding truncate_here_def truncate_to_def tell_def using cw pw by simp
  moreover have "write_kept env all_entries ?removed ?counted = Inr ?written"
    by (rule write_kept_valid [OF assms(3)])
  ultimately show ?thesis
    using assms(6) walked sorted looked pk
    by (simp add: remove_from_index_def Let_def)
qed

subsection \<open>Removal from a consistent index, and files of the older version\<close>

lemma placed_offsets: "\<forall>x\<in>set (placed env p es). int p \<le> offset x"
proof (induction es arbitrary: p)
  case Nil
  then show ?case by simp
next
  case (Cons e es)
  from Cons.IH [of "p + length (entry_image env e)"] show ?case
    by auto
qed

lemma sorted_offsets_placed: "sorted (map offset (placed env p es))"
proof (induction es arbitrary: p)
  case Nil
  then show ?case by simp
next
  case (Cons e es)
  from placed_offsets [of env "p + length (entry_image env e)" es] Cons.IH show ?case
    by auto
qed

lemma placed_extended:
  assumes "list_all (extended_entry env) es"
  shows "list_all (extended_entry env) (placed env p es)"
  using assms by (induction es arbitrary: p) simp_all

lemma entry_eq_same_version:
  assumes "version a = version b"
  shows "entry_eq a b \<longleftrightarrow> a = b"
  using assms by (cases a, cases b) (auto simp: entry_eq_def)

lemma set_first_matches: "set (first_matches env keys all_entries) \<subseteq> set all_entries"
  by (induction keys) (auto simp: first_matches_def find_Some_iff split: option.splits)

lemma kept_entries_extended:
  assumes "list_all (extended_entry env) all_entries" "set removed \<subseteq> set all_entries"
  shows "kept_entries all_entries removed = filter (\<lambda>e. e \<notin> set removed) all_entries"
proof -
  have "list_ex (entry_eq e) removed \<longleftrightarrow> e \<in> set removed" if "e \<in> set all_entries" for e
  proof -
    have "version r = version e" if "r \<in> set removed" for r
      using that \<open>e \<in> set all_entries\<close> assms
      by (auto simp: list_all_iff extended_entry_def)
    then show ?thesis
      by (auto simp: list_ex_iff entry_eq_same_version)
  qed
  then show ?thesis
    unfolding kept_entries_def by (intro filter_cong) auto
qed

lemma length_first_matches:
  "length (first_matches env keys all_entries) = length (filter (matched env all_entries) keys)"
proof (induction keys)
  case Nil
  then show ?case by (simp add: first_matches_def)
next
  case (Cons k keys)
  have "find (lookup_function env k) all_entries = None \<longleftrightarrow> \<not> matched env all_entries k"
    by (auto simp: find_None_iff matched_def list_ex_iff)
  with Cons show ?case
    by (cases "find (lookup_function env k) all_entries") (auto simp: first_matches_def)
qed

lemma body_image_placed [simp]: "body_image env (placed env p es) = body_image env es"
  by (induction es arbitrary: p) simp_all

lemma remove_from_index_image:
  assumes "list_all (extended_entry env) es" "length es < 2147483648" "keys \<noteq> []"
    "length keys \<le> 2147483648"
  shows "map_sum id fst (remove_from_index env (Some (index_image env 2 (length es) es)) keys)
    = Inr (Some (index_image env 2
        (stored_count (int (length es) - int (length (filter (matched env (placed env 12 es)) keys))))
        (filter (\<lambda>e. e \<notin> set (first_matches env keys (placed env 12 es))) (placed env 12 es))))"
proof -
  let ?all = "placed env 12 es"
  have walk: "walk_index env (open_handle (index_image env 2 (length es) es)) = (?all, Exhausted)"
    using assms(1,2) by (intro walk_index_consistent) simp_all
  have valid: "list_all (valid_entry env) ?all"
    using placed_extended [OF assms(1), of 12] by (simp add: list_all_iff extended_entry_def)
  from remove_from_index_walked [OF walk _ valid sorted_offsets_placed _ assms(3,4),
      of 2 "length es" "body_image env es"] assms(2)
  have "map_sum id fst (remove_from_index env (Some (index_image env 2 (length es) es)) keys)
    = Inr (Some (INDEX_MAGIC_PREFIX @ le32 2
        @ le32 (stored_count (int (length ?all) - int (length (first_matches env keys ?all))))
        @ body_image env (kept_entries ?all (first_matches env keys ?all))))"
    by (simp add: index_image_def)
  moreover have "kept_entries ?all (first_matches env keys ?all)
    = filter (\<lambda>e. e \<notin> set (first_matches env keys ?all)) ?all"
    using placed_extended [OF assms(1)] set_first_matches by (rule kept_entries_extended)
  ultimately show ?thesis
    by (simp add: index_image_def length_first_matches)
qed

lemma length_basic_image_ge:
  assumes "valid_checksum (checksum e)"
  shows "25 \<le> length (basic_image env e)"
  by (simp add: length_basic_image [OF assms])

lemma read_older_at:
  assumes "legacy_record env e" "content h = pre @ basic_image env e @ rest" "pos h = length pre"
  shows "\<exists>h'. ExtendedIndexEntry_read_from env h SlowLorris = Inr (upgraded env (length pre) e, h')
    \<and> content h' = content h \<and> pos h' = length pre + length (basic_image env e)"
proof -
  from assms(1) have v: "valid_time env (time e)" "valid_checksum (checksum e)"
    "CHR 0x00 \<notin> set (path e)"
    by (simp_all add: legacy_record_def)
  from assms(1) obtain profile' where p: "load_profile env (checksum e) = Inr profile'"
    by (auto simp: legacy_record_def split: sum.splits)
  from read_basic_at [OF v assms(2,3), of SlowLorris]
  obtain h' where "BasicIndexEntry_read_from env h SlowLorris
      = Inr (BasicIndexEntry (time e) (checksum e) (path e) (int (length pre)), h')"
    "content h' = content h" "pos h' = length pre + length (basic_image env e)"
    by auto
  with p show ?thesis
    by (simp add: ExtendedIndexEntry_read_from_def read_from_older_index_def upgraded_def
        BasicIndexEntry_def)
qed

lemma walk_loop_legacy:
  assumes "list_all (legacy_record env) es"
    "content h = pre @ concat (map (basic_image env) es) @ junk"
    "pos h = length pre" "length junk \<le> 24" "loaded \<le> number"
  shows "walk_loop env h (length (content h)) 1 number loaded
    = (take (number - loaded) (placed_legacy env (length pre) es),
       if length es < number - loaded then Mismatch else Exhausted)"
  using assms
proof (induction es arbitrary: pre h loaded)
  case Nil
  then show ?case
    by (subst walk_loop.simps) (auto simp: tell_def)
next
  case (Cons e es)
  from Cons.prems have e: "legacy_record env e" and es: "list_all (legacy_record env) es"
    by simp_all
  have c: "content h = pre @ basic_image env e @ (concat (map (basic_image env) es) @ junk)"
    using Cons.prems(2) by simp
  have len: "25 \<le> length (basic_image env e)"
    using e by (intro length_basic_image_ge) (simp add: legacy_record_def)
  show ?case
  proof (cases "loaded < number")
    case False
    with Cons.prems show ?thesis
      by (subst walk_loop.simps) auto
  next
    case True
    from read_older_at [OF e c Cons.prems(3)]
    obtain h' where h': "ExtendedIndexEntry_read_from env h SlowLorris
        = Inr (upgraded env (length pre) e, h')"
      "content h' = content h" "pos h' = length pre + length (basic_image env e)"
      by auto
    have "walk_loop env h' (length (content h')) 1 number (loaded + 1)
      = (take (number - (loaded + 1)) (placed_legacy env (length (pre @ basic_image env e)) es),
         if length es < number - (loaded + 1) then Mismatch else Exhausted)"
      using es c h' Cons.prems(4) True by (intro Cons.IH) simp_all
    moreover have "tell h + 24 < length (content h)"
      using c Cons.prems(3) len by (simp add: tell_def)
    moreover have "take (number - loaded) (placed_legacy env (length pre) (e # es))
      = upgraded env (length pre) e
        # take (number - (loaded + 1)) (placed_legacy env (length pre + length (basic_image env e)) es)"
    proof -
      from True have "number - loaded = Suc (number - (loaded + 1))"
        by arith
      then show ?thesis
        by simp
    qed
    ultimately show ?thesis
      using True h'
      by (subst walk_loop.simps) (auto simp: IndexVersion_of_def)
  qed
qed

lemma walk_index_legacy:
  assumes "list_all (legacy_record env) es" "length es < 4294967296"
  shows "walk_index env (open_handle (legacy_image env (length es) es))
    = (placed_legacy env 12 es, Exhausted)"
proof -
  let ?c = "length es"
  let ?body = "concat (map (basic_image env) es)"
  let ?start = "seek 0 (seek_end (open_handle (legacy_image env ?c es)))"
  have c0: "content ?start = [] @ INDEX_MAGIC_PREFIX @ (le32 1 @ le32 ?c @ ?body)"
    and p0: "pos ?start = length ([] :: string)"
    by (simp_all add: seek_def seek_end_def open_handle_def legacy_image_def)
  from read_at [OF c0 p0]
  obtain h2 where h2: "read 4 ?start = (INDEX_MAGIC_PREFIX, h2)" "content h2 = content ?start"
    "pos h2 = 4"
    by (auto simp: length_magic)
  have "\<exists>h'. read_int_from_handle h2 = Inr (1, h') \<and> content h' = content h2
    \<and> pos h' = length INDEX_MAGIC_PREFIX + 4"
    using h2 c0
    by (intro read_int_at [where rest = "le32 ?c @ ?body"]) (simp_all add: length_magic)
  then obtain h3 where h3: "read_int_from_handle h2 = Inr (1, h3)" "content h3 = content ?start"
    "pos h3 = 8"
    using h2 by (auto simp: length_magic)
  have "\<exists>h'. read_int_from_handle h3 = Inr (?c, h') \<and> content h' = content h3
    \<and> pos h' = length (INDEX_MAGIC_PREFIX @ le32 1) + 4"
    using h3 c0 assms(2)
    by (intro read_int_at [where rest = "?body"]) (simp_all add: length_magic length_le32)
  then obtain h4 where h4: "read_int_from_handle h3 = Inr (?c, h4)" "content h4 = content ?start"
    "pos h4 = 12"
    using h3 by (auto simp: length_magic length_le32)
  have "walk_loop env h4 (length (content h4)) 1 ?c 0
    = (take (?c - 0) (placed_legacy env (length (INDEX_MAGIC_PREFIX @ le32 1 @ le32 ?c)) es),
       if length es < ?c - 0 then Mismatch else Exhausted)"
    using assms h4 c0
    by (intro walk_loop_legacy [where junk = "[]"]) (simp_all add: length_magic length_le32)
  moreover have "length (placed_legacy env p es) = length es" for p
    by (induction es arbitrary: p) simp_all
  ultimately show ?thesis
    using h2 h3 h4
    by (simp add: walk_index_def Let_def tell_def seek_end_def seek_def INDEX_VERSION_def
        length_magic length_le32 open_handle_def)
qed

subsection \<open>The examples of removal, and the custom index\<close>

lemma example_lookup:
  "lookup_function example_externals ''a.prof'' e \<longleftrightarrow> path e = ''a.prof''"
  "lookup_function example_externals ''b.prof'' e \<longleftrightarrow> path e = ''b.prof''"
  by (simp_all add: lookup_function_def example_externals_def)

lemma example_paths:
  "path entry_a = ''a.prof''" "path entry_b = ''b.prof''" "path entry_a_later = ''a.prof''"
  "time entry_a = ''5''" "time entry_a_later = ''6''"
  by (simp_all add: entry_a_def entry_b_def entry_a_later_def ExtendedIndexEntry_def)

lemma remove_repeated_key:
  "map_sum id fst (remove_from_index example_externals
      (Some (index_image example_externals 2 1 [entry_a])) [''a.prof'', ''a.prof''])
    = Inr (Some (index_image example_externals 2 4294967295 []))"
proof -
  let ?all = "placed example_externals 12 [entry_a]"
  have es: "list_all (extended_entry example_externals) [entry_a]"
    by (simp add: extended_examples)
  have m: "filter (matched example_externals ?all) [''a.prof'', ''a.prof''] = [''a.prof'', ''a.prof'']"
    by (simp add: matched_def example_lookup example_paths)
  have f: "first_matches example_externals [''a.prof'', ''a.prof''] ?all
    = [entry_a\<lparr>offset := 12\<rparr>, entry_a\<lparr>offset := 12\<rparr>]"
    by (simp add: first_matches_def example_lookup example_paths)
  have "map_sum id fst (remove_from_index example_externals
      (Some (index_image example_externals 2 (length [entry_a]) [entry_a])) [''a.prof'', ''a.prof''])
    = Inr (Some (index_image example_externals 2
        (stored_count (int (length [entry_a])
           - int (length (filter (matched example_externals ?all) [''a.prof'', ''a.prof'']))))
        (filter (\<lambda>e. e \<notin> set (first_matches example_externals [''a.prof'', ''a.prof''] ?all))
           ?all)))"
    by (rule remove_from_index_image [OF es]) simp_all
  then show ?thesis
    unfolding m f by (simp add: stored_count_def)
qed

lemma walk_index_lost_count:
  "walk_index example_externals (open_handle (index_image example_externals 2 4294967295 []))
    = ([], Mismatch)"
  using walk_index_image [of example_externals "[]"
      "open_handle (index_image example_externals 2 4294967295 [])" 4294967295 "[]"]
  by (simp add: open_handle_def)

lemma remove_first_match_only:
  "map_sum id fst (remove_from_index example_externals
      (Some (index_image example_externals 2 2 [entry_a, entry_a_later])) [''a.prof''])
    = Inr (Some (index_image example_externals 2 1 [entry_a_later]))"
proof -
  let ?all = "placed example_externals 12 [entry_a, entry_a_later]"
  have es: "list_all (extended_entry example_externals) [entry_a, entry_a_later]"
    by (simp add: extended_examples)
  have m: "filter (matched example_externals ?all) [''a.prof''] = [''a.prof'']"
    by (simp add: matched_def example_lookup example_paths)
  have f: "first_matches example_externals [''a.prof''] ?all = [entry_a\<lparr>offset := 12\<rparr>]"
    by (simp add: first_matches_def example_lookup example_paths)
  have ne: "entry_a_later\<lparr>offset := q\<rparr> \<noteq> entry_a\<lparr>offset := 12\<rparr>" for q
  proof
    assume "entry_a_later\<lparr>offset := q\<rparr> = entry_a\<lparr>offset := 12\<rparr>"
    then have "time (entry_a_later\<lparr>offset := q\<rparr>) = time (entry_a\<lparr>offset := 12\<rparr>)"
      by simp
    then show False
      by (simp add: example_paths)
  qed
  have k: "filter (\<lambda>e. e \<notin> set [entry_a\<lparr>offset := 12\<rparr>]) ?all
    = [entry_a_later\<lparr>offset := int (12 + length (entry_image example_externals entry_a))\<rparr>]"
    using ne by simp
  have "map_sum id fst (remove_from_index example_externals
      (Some (index_image example_externals 2 (length [entry_a, entry_a_later])
         [entry_a, entry_a_later])) [''a.prof''])
    = Inr (Some (index_image example_externals 2
        (stored_count (int (length [entry_a, entry_a_later])
           - int (length (filter (matched example_externals ?all) [''a.prof'']))))
        (filter (\<lambda>e. e \<notin> set (first_matches example_externals [''a.prof''] ?all)) ?all)))"
    by (rule remove_from_index_image [OF es]) simp_all
  then show ?thesis
    unfolding m f k by (simp add: stored_count_def index_image_def numeral_2_eq_2)
qed

lemma example_load_profile: "load_profile example_externals c = Inr stored_profile"
  by (simp add: example_externals_def)

lemma legacy_a_record: "legacy_record example_externals legacy_a"
  by (simp add: legacy_record_def legacy_a_def BasicIndexEntry_def valid_times valid_checksums
      example_load_profile)

lemma upgraded_legacy_a:
  "upgraded example_externals 12 legacy_a
    = ExtendedIndexEntry ''5'' example_checksum ''a.prof'' 12 stored_profile"
  by (simp add: upgraded_def legacy_a_def BasicIndexEntry_def example_load_profile)

lemma upgraded_legacy_a_valid:
  "extended_entry example_externals (upgraded example_externals 12 legacy_a)"
  unfolding upgraded_legacy_a
  by (simp add: extended_entry_def valid_entry_def ExtendedIndexEntry_def stored_profile_def
      valid_times valid_checksums short_def)

lemma remove_from_legacy:
  "map_sum id fst (remove_from_index example_externals
      (Some (legacy_image example_externals 1 [legacy_a])) [''b.prof''])
    = Inr (Some (INDEX_MAGIC_PREFIX @ le32 1 @ le32 1
        @ extended_image example_externals (upgraded example_externals 12 legacy_a)))"
proof -
  let ?all = "[upgraded example_externals 12 legacy_a]"
  have "walk_index example_externals
      (open_handle (legacy_image example_externals (length [legacy_a]) [legacy_a]))
    = (placed_legacy example_externals 12 [legacy_a], Exhausted)"
    by (rule walk_index_legacy) (simp_all add: legacy_a_record)
  then have walk: "walk_index example_externals
      (open_handle (legacy_image example_externals 1 [legacy_a])) = (?all, Exhausted)"
    by simp
  have bytes: "legacy_image example_externals 1 [legacy_a]
    = INDEX_MAGIC_PREFIX @ le32 1 @ le32 1 @ basic_image example_externals legacy_a"
    by (simp add: legacy_image_def)
  have valid: "list_all (valid_entry example_externals) ?all"
    using upgraded_legacy_a_valid by (simp add: extended_entry_def)
  have f: "first_matches example_externals [''b.prof''] ?all = []"
    by (simp add: first_matches_def example_lookup upgraded_legacy_a ExtendedIndexEntry_def)
  have "map_sum id fst (remove_from_index example_externals
      (Some (legacy_image example_externals 1 [legacy_a])) [''b.prof''])
    = Inr (Some (INDEX_MAGIC_PREFIX @ le32 1
        @ le32 (stored_count (int (length ?all)
              - int (length (first_matches example_externals [''b.prof''] ?all))))
        @ body_image example_externals
            (kept_entries ?all (first_matches example_externals [''b.prof''] ?all))))"
    by (rule remove_from_index_walked [OF walk bytes valid]) simp_all
  moreover have "entry_image example_externals (upgraded example_externals 12 legacy_a)
    = extended_image example_externals (upgraded example_externals 12 legacy_a)"
    by (rule extended_entry_image(1)) (rule upgraded_legacy_a_valid)
  ultimately show ?thesis
    unfolding f by (simp add: stored_count_def kept_entries_def)
qed


section \<open>The claims\<close>

text \<open>
  C7, as the code has it. A file whose declared version is greater than \<open>INDEX_VERSION\<close>
  makes \<open>walk_index\<close> raise \<open>MalformedIndexFileException\<close> with the message that names the
  two versions, and no entry is yielded. The exception is of the class raised for bad
  magic bytes; only the message tells the two apart.
\<close>

theorem walk_index_newer_version:
  assumes "take 4 (content h) = INDEX_MAGIC_PREFIX" "8 \<le> length (content h)"
    "int (format_version (content h)) > INDEX_VERSION"
  shows "walk_index env h
    = ([], Raised (MalformedIndexFileException (version_message (format_version (content h)))))"
  using assms by (rule walk_index_version_error)

theorem walk_index_newer_version_witness:
  "take 4 (content (open_handle (INDEX_MAGIC_PREFIX @ le32 3 @ le32 0))) = INDEX_MAGIC_PREFIX
   \<and> 8 \<le> length (content (open_handle (INDEX_MAGIC_PREFIX @ le32 3 @ le32 0)))
   \<and> int (format_version (content (open_handle (INDEX_MAGIC_PREFIX @ le32 3 @ le32 0))))
       > INDEX_VERSION
   \<and> walk_index example_externals (open_handle (INDEX_MAGIC_PREFIX @ le32 3 @ le32 0))
       = ([], Raised (MalformedIndexFileException (version_message 3)))"
proof -
  let ?h = "open_handle (INDEX_MAGIC_PREFIX @ le32 3 @ le32 0)"
  have c: "content ?h = INDEX_MAGIC_PREFIX @ le32 3 @ le32 0"
    by (simp add: open_handle_def)
  have v: "format_version (content ?h) = 3"
    unfolding c by (rule format_version_header) simp
  have h: "take 4 (content ?h) = INDEX_MAGIC_PREFIX" "8 \<le> length (content ?h)"
    "int (format_version (content ?h)) > INDEX_VERSION"
    unfolding v by (simp_all add: c take_magic length_magic length_le32 INDEX_VERSION_def)
  from walk_index_newer_version [OF h, of example_externals] h show ?thesis
    by (simp add: v)
qed

text \<open>
  C7 as stated fails: the exception for a newer version is not of a class of its own. For
  a file of version 3 and for a file with bad magic bytes the walker raises the same
  class, \<open>MalformedIndexFileException\<close>.
\<close>

theorem walk_index_newer_version_counterexample:
  "snd (walk_index example_externals (open_handle (INDEX_MAGIC_PREFIX @ le32 3 @ le32 0)))
     = Raised (MalformedIndexFileException (version_message 3))
   \<and> snd (walk_index example_externals (open_handle (''xdip'' @ le32 2 @ le32 0)))
     = Raised (MalformedIndexFileException ''read blob is not an index file'')
   \<and> exception_class (MalformedIndexFileException (version_message 3))
     = exception_class (MalformedIndexFileException ''read blob is not an index file'')"
proof -
  let ?h = "open_handle (INDEX_MAGIC_PREFIX @ le32 3 @ le32 0)"
  have c: "content ?h = INDEX_MAGIC_PREFIX @ le32 3 @ le32 0"
    by (simp add: open_handle_def)
  have v: "format_version (content ?h) = 3"
    unfolding c by (rule format_version_header) simp
  have h: "take 4 (content ?h) = INDEX_MAGIC_PREFIX" "8 \<le> length (content ?h)"
    "int (format_version (content ?h)) > INDEX_VERSION"
    unfolding v by (simp_all add: c take_magic length_magic length_le32 INDEX_VERSION_def)
  have "walk_index example_externals ?h
    = ([], Raised (MalformedIndexFileException (version_message 3)))"
    using walk_index_version_error [OF h, of example_externals] by (simp add: v)
  moreover have "walk_index example_externals (open_handle (''xdip'' @ le32 2 @ le32 0))
    = ([], Raised (MalformedIndexFileException ''read blob is not an index file''))"
    by (rule walk_index_magic_error) (simp add: open_handle_def INDEX_MAGIC_PREFIX_def)
  ultimately show ?thesis
    by simp
qed

text \<open>
  C3, as the code has it. For every valid entry of either generation, decoding the bytes
  that encoding it produces gives the entry with every stored field as it was and with the
  offset at which the record starts; it is equal to the entry, by \<open>__eq__\<close>, exactly when the
  entry had that offset.
\<close>

theorem decode_encoded_entry:
  assumes "valid_entry env e"
  shows "decode_encoded env before e = Inr (e\<lparr>offset := int (length before)\<rparr>)
    \<and> (entry_eq (e\<lparr>offset := int (length before)\<rparr>) e \<longleftrightarrow> offset e = int (length before))"
  using decode_encoded_valid [OF assms] by (simp add: entry_eq_offset)

theorem decode_encoded_entry_witness:
  "valid_entry example_externals (entry_a\<lparr>offset := 12\<rparr>)
   \<and> decode_encoded example_externals (INDEX_MAGIC_PREFIX @ le32 2 @ le32 1)
         (entry_a\<lparr>offset := 12\<rparr>) = Inr (entry_a\<lparr>offset := 12\<rparr>)
   \<and> entry_eq (entry_a\<lparr>offset := 12\<rparr>) (entry_a\<lparr>offset := 12\<rparr>)"
proof -
  have v: "valid_entry example_externals (entry_a\<lparr>offset := 12\<rparr>)"
    using extended_examples(1) by (simp add: extended_entry_def)
  from decode_encoded_entry [OF v, of "INDEX_MAGIC_PREFIX @ le32 2 @ le32 1"] v show ?thesis
    by (simp add: length_magic length_le32)
qed

text \<open>
  C3 as stated fails for an entry that carries the sentinel \<open>- 1\<close>, as every entry that
  \<open>register_in_index\<close> builds does: the decoded entry has the offset of its record, here 0,
  and is not equal to the entry that was encoded.
\<close>

theorem decode_encoded_entry_counterexample:
  "valid_entry example_externals entry_a \<and> offset entry_a = - 1
   \<and> decode_encoded example_externals [] entry_a = Inr (entry_a\<lparr>offset := 0\<rparr>)
   \<and> \<not> entry_eq (entry_a\<lparr>offset := 0\<rparr>) entry_a"
proof -
  have v: "valid_entry example_externals entry_a"
    using extended_examples(1) by (simp add: extended_entry_def)
  have o: "offset entry_a = - 1"
    by (simp add: entry_a_def ExtendedIndexEntry_def)
  from decode_encoded_valid [OF v, of "[]"] v o show ?thesis
    by (simp add: entry_eq_offset)
qed






text \<open>
  C4, as the code has it. From a freshly initialised index, every sequence of calls of
  \<open>write_entry_to_index\<close> with valid entries of the current generation that carry the
  sentinel \<open>- 1\<close> succeeds, and the walker then yields records in strictly ascending order
  of path, then time (both compared as strings, as the comparator of the insertion does),
  and ends without a complaint.
\<close>

theorem write_entry_to_index_keeps_order:
  assumes "list_all (\<lambda>e. extended_entry env e \<and> offset e = - 1) new"
    "length new < 2147483648"
  shows "\<exists>fresh bytes. touch_index None = Inr fresh
    \<and> write_entries_to_index env index_file fresh new = Inr bytes
    \<and> snd (walk_index env (open_handle bytes)) = Exhausted
    \<and> sorted_wrt entry_before (fst (walk_index env (open_handle bytes)))"
proof -
  from write_entries_to_index_image [of env "[]" new index_file] assms
  obtain es where es: "write_entries_to_index env index_file (index_image env 2 0 []) new
      = Inr (index_image env 2 (length es) es)"
    "list_all (extended_entry env) es" "sorted_wrt entry_before es" "length es < 2147483648"
    by auto
  have "walk_index env (open_handle (index_image env 2 (length es) es))
    = (placed env 12 es, Exhausted)"
    using es(2,4) by (intro walk_index_consistent) simp_all
  with es(1,3) touch_index_fresh [of env] show ?thesis
    by (simp add: sorted_placed)
qed

theorem write_entry_to_index_keeps_order_witness:
  "list_all (\<lambda>e. extended_entry example_externals e \<and> offset e = - 1) [entry_b, entry_a]
   \<and> length [entry_b, entry_a] < 2147483648
   \<and> (\<exists>fresh bytes. touch_index None = Inr fresh
        \<and> write_entries_to_index example_externals ''index'' fresh [entry_b, entry_a] = Inr bytes
        \<and> snd (walk_index example_externals (open_handle bytes)) = Exhausted
        \<and> sorted_wrt entry_before (fst (walk_index example_externals (open_handle bytes))))"
proof -
  have v: "list_all (\<lambda>e. extended_entry example_externals e \<and> offset e = - 1)
      [entry_b, entry_a]"
    by (simp add: extended_examples example_offsets)
  have l: "length [entry_b, entry_a] < 2147483648"
    by simp
  from write_entry_to_index_keeps_order [OF v l, of "''index''"] v l show ?thesis
    by blast
qed

text \<open>
  C4 as stated fails for a sequence with an entry that has an offset of its own: after
  \<open>a.prof\<close> with the sentinel, \<open>b.prof\<close> with the offset 12 goes in front of it.
\<close>

theorem write_entry_to_index_keeps_order_counterexample:
  "touch_index None = Inr (index_image example_externals 2 0 [])
   \<and> write_entries_to_index example_externals ''index'' (index_image example_externals 2 0 [])
        [entry_a, entry_b\<lparr>offset := 12\<rparr>]
      = Inr (index_image example_externals 2 2 [entry_b, entry_a])
   \<and> walk_index example_externals (open_handle (index_image example_externals 2 2 [entry_b, entry_a]))
      = (placed example_externals 12 [entry_b, entry_a], Exhausted)
   \<and> \<not> sorted_wrt entry_before (placed example_externals 12 [entry_b, entry_a])"
proof -
  have va: "valid_entry example_externals entry_a" and vb: "valid_entry example_externals entry_b"
    using extended_examples by (simp_all add: extended_entry_def)
  have "write_entry_to_index example_externals ''index''
      (index_image example_externals 2 (length ([] :: entry list)) []) entry_a
    = Inr (index_image example_externals 2 (length (insert_entry entry_a []))
             (insert_entry entry_a []),
           if registered entry_a [] then [already_registered entry_a ''index''] else [])"
    by (rule write_entry_to_index_sentinel) (simp_all add: va example_offsets)
  then have 1: "write_entry_to_index example_externals ''index''
      (index_image example_externals 2 0 []) entry_a
    = Inr (index_image example_externals 2 1 [entry_a], [])"
    by (simp add: insert_entry_def registered_def)
  have "write_entry_to_index example_externals ''index''
      (INDEX_MAGIC_PREFIX @ le32 2 @ le32 1 @ [] @ body_image example_externals [entry_a])
      (entry_b\<lparr>offset := 12\<rparr>)
    = Inr (INDEX_MAGIC_PREFIX @ le32 2 @ le32 (1 + 1) @ []
             @ entry_image example_externals (entry_b\<lparr>offset := 12\<rparr>)
             @ body_image example_externals [entry_a], [])"
    by (rule write_entry_to_index_at_offset) (simp_all add: vb)
  then have 2: "write_entry_to_index example_externals ''index''
      (index_image example_externals 2 1 [entry_a]) (entry_b\<lparr>offset := 12\<rparr>)
    = Inr (index_image example_externals 2 2 [entry_b, entry_a], [])"
    by (simp add: index_image_def numeral_2_eq_2)
  have "walk_index example_externals
      (open_handle (index_image example_externals 2 (length [entry_b, entry_a]) [entry_b, entry_a]))
    = (placed example_externals 12 [entry_b, entry_a], Exhausted)"
    by (rule walk_index_consistent) (simp_all add: extended_examples)
  moreover have "length [entry_b, entry_a] = 2"
    by simp
  ultimately have 3: "walk_index example_externals
      (open_handle (index_image example_externals 2 2 [entry_b, entry_a]))
    = (placed example_externals 12 [entry_b, entry_a], Exhausted)"
    by (simp only:)
  have 4: "\<not> sorted_wrt entry_before (placed example_externals 12 [entry_b, entry_a])"
    unfolding sorted_placed by (simp add: example_order)
  from 1 2 3 4 touch_index_fresh [of example_externals] show ?thesis
    by simp
qed

text \<open>
  C5, as the code has it. On an index whose records are in order, an entry with the
  sentinel \<open>- 1\<close> that has the path and the time of a record of the file leaves the file
  as it is, byte for byte; the call returns normally and logs the warning that the entry
  is registered already. The other fields of the entry do not matter.
\<close>

theorem write_entry_to_index_duplicate_noop:
  assumes "list_all (extended_entry env) es" "sorted_wrt entry_before es"
    "length es < 4294967296" "offset e = - 1"
    "y \<in> set es" "path y = path e" "time y = time e"
  shows "write_entry_to_index env index_file (index_image env 2 (length es) es) e
    = Inr (index_image env 2 (length es) es, [already_registered e index_file])"
  using assms(1,3,4) registered_in_sorted [OF assms(2,5,6,7)]
  by (rule write_entry_to_index_duplicate)

theorem write_entry_to_index_duplicate_noop_witness:
  "list_all (extended_entry example_externals) [entry_a, entry_b]
   \<and> sorted_wrt entry_before [entry_a, entry_b]
   \<and> length [entry_a, entry_b] < 4294967296
   \<and> offset (entry_b\<lparr>checksum := example_checksum\<rparr>) = - 1
   \<and> entry_b \<in> set [entry_a, entry_b]
   \<and> path entry_b = path (entry_b\<lparr>checksum := example_checksum\<rparr>)
   \<and> time entry_b = time (entry_b\<lparr>checksum := example_checksum\<rparr>)
   \<and> write_entry_to_index example_externals ''index''
        (index_image example_externals 2 (length [entry_a, entry_b]) [entry_a, entry_b])
        (entry_b\<lparr>checksum := example_checksum\<rparr>)
      = Inr (index_image example_externals 2 (length [entry_a, entry_b]) [entry_a, entry_b],
             [already_registered (entry_b\<lparr>checksum := example_checksum\<rparr>) ''index''])"
proof -
  have h: "list_all (extended_entry example_externals) [entry_a, entry_b]"
    "sorted_wrt entry_before [entry_a, entry_b]"
    "length [entry_a, entry_b] < 4294967296"
    "offset (entry_b\<lparr>checksum := example_checksum\<rparr>) = - 1"
    "entry_b \<in> set [entry_a, entry_b]"
    "path entry_b = path (entry_b\<lparr>checksum := example_checksum\<rparr>)"
    "time entry_b = time (entry_b\<lparr>checksum := example_checksum\<rparr>)"
    by (simp_all add: extended_examples example_order example_offsets)
  from write_entry_to_index_duplicate_noop [OF h, of "''index''"] h show ?thesis
    by blast
qed

text \<open>
  C5 as stated fails for an entry with an offset of its own: the entry of the only record
  of the file, given the offset 12, is written once more and the file has two records.
\<close>

theorem write_entry_to_index_duplicate_noop_counterexample:
  "path (entry_a\<lparr>offset := 12\<rparr>) = path entry_a \<and> time (entry_a\<lparr>offset := 12\<rparr>) = time entry_a
   \<and> write_entry_to_index example_externals ''index''
        (index_image example_externals 2 1 [entry_a]) (entry_a\<lparr>offset := 12\<rparr>)
      = Inr (index_image example_externals 2 2 [entry_a, entry_a], [])
   \<and> index_image example_externals 2 2 [entry_a, entry_a]
      \<noteq> index_image example_externals 2 1 [entry_a]"
proof -
  have va: "valid_entry example_externals entry_a"
    using extended_examples by (simp add: extended_entry_def)
  have "write_entry_to_index example_externals ''index''
      (INDEX_MAGIC_PREFIX @ le32 2 @ le32 1 @ [] @ body_image example_externals [entry_a])
      (entry_a\<lparr>offset := 12\<rparr>)
    = Inr (INDEX_MAGIC_PREFIX @ le32 2 @ le32 (1 + 1) @ []
             @ entry_image example_externals (entry_a\<lparr>offset := 12\<rparr>)
             @ body_image example_externals [entry_a], [])"
    by (rule write_entry_to_index_at_offset) (simp_all add: va)
  then have 1: "write_entry_to_index example_externals ''index''
      (index_image example_externals 2 1 [entry_a]) (entry_a\<lparr>offset := 12\<rparr>)
    = Inr (index_image example_externals 2 2 [entry_a, entry_a], [])"
    by (simp add: index_image_def numeral_2_eq_2)
  have "length (entry_image example_externals entry_a) \<ge> 45"
    by (rule extended_entry_image(2)) (rule extended_examples)
  then have "entry_image example_externals entry_a \<noteq> []"
    by auto
  then have "length (index_image example_externals 2 2 [entry_a, entry_a])
    \<noteq> length (index_image example_externals 2 1 [entry_a])"
    by (simp add: length_index_image)
  then have 2: "index_image example_externals 2 2 [entry_a, entry_a]
    \<noteq> index_image example_externals 2 1 [entry_a]"
    by auto
  from 1 2 show ?thesis
    by simp
qed

text \<open>
  C1 fails on the code. The index that \<open>write_list_of_entries\<close> writes for the one entry
  \<open>a.prof\<close> has the count 1. \<open>remove_from_index\<close> with the key \<open>a.prof\<close> given twice finds
  the record twice, writes the count 1 - 2, which \<open>struct.pack("i", - 1)\<close> stores as the
  bytes of 4294967295, and writes no record. The walker yields no entry from that file and
  reports the mismatch: the count of the header is not the number of records it yields.
\<close>

theorem remove_from_index_repeated_key:
  "write_list_of_entries example_externals [entry_a]
     = Inr (index_image example_externals 2 1 [entry_a])
   \<and> map_sum id fst (remove_from_index example_externals
        (Some (index_image example_externals 2 1 [entry_a])) [''a.prof'', ''a.prof''])
     = Inr (Some (index_image example_externals 2 4294967295 []))
   \<and> entry_count (index_image example_externals 2 4294967295 []) = 4294967295
   \<and> walk_index example_externals (open_handle (index_image example_externals 2 4294967295 []))
     = ([], Mismatch)"
proof -
  have "write_list_of_entries example_externals [entry_a]
    = Inr (index_image example_externals 2 (length [entry_a]) [entry_a])"
    using extended_examples(1)
    by (intro write_list_of_entries_image) (simp_all add: extended_entry_def)
  then have 1: "write_list_of_entries example_externals [entry_a]
    = Inr (index_image example_externals 2 1 [entry_a])"
    by simp
  have 2: "entry_count (index_image example_externals 2 4294967295 []) = 4294967295"
    unfolding index_image_def by (rule entry_count_header) simp
  from 1 2 remove_repeated_key walk_index_lost_count show ?thesis
    by (intro conjI)
qed

text \<open>
  C2, as the code has it. On a consistent index of valid records, \<open>remove_from_index\<close>
  with a collection of keys that is not empty removes, for every key, the first record
  in the order of the file that the key matches (by checksum when the key is a checksum,
  by path otherwise) and no other: the records that stay are those that are the first
  match of no key, in their order. The count written is the number of records less the
  number of keys that match a record.
\<close>

theorem remove_from_index_first_matches:
  assumes "list_all (extended_entry env) es" "length es < 2147483648" "keys \<noteq> []"
    "length keys \<le> 2147483648"
  shows "map_sum id fst (remove_from_index env (Some (index_image env 2 (length es) es)) keys)
    = Inr (Some (index_image env 2
        (stored_count (int (length es) - int (length (filter (matched env (placed env 12 es)) keys))))
        (filter (\<lambda>e. e \<notin> set (first_matches env keys (placed env 12 es))) (placed env 12 es))))"
  using assms by (rule remove_from_index_image)

theorem remove_from_index_first_matches_witness:
  "list_all (extended_entry example_externals) [entry_a, entry_b]
   \<and> length [entry_a, entry_b] < 2147483648 \<and> [''b.prof''] \<noteq> []
   \<and> length [''b.prof''] \<le> 2147483648
   \<and> map_sum id fst (remove_from_index example_externals
        (Some (index_image example_externals 2 (length [entry_a, entry_b]) [entry_a, entry_b]))
        [''b.prof''])
     = Inr (Some (index_image example_externals 2
        (stored_count (int (length [entry_a, entry_b])
           - int (length (filter (matched example_externals
                 (placed example_externals 12 [entry_a, entry_b])) [''b.prof'']))))
        (filter (\<lambda>e. e \<notin> set (first_matches example_externals [''b.prof'']
              (placed example_externals 12 [entry_a, entry_b])))
           (placed example_externals 12 [entry_a, entry_b]))))"
proof -
  have h: "list_all (extended_entry example_externals) [entry_a, entry_b]"
    "length [entry_a, entry_b] < 2147483648" "[''b.prof''] \<noteq> []"
    "length [''b.prof''] \<le> 2147483648"
    by (simp_all add: extended_examples)
  from remove_from_index_first_matches [OF h] h show ?thesis
    by (intro conjI)
qed

text \<open>
  C2 as stated fails when two records match one key: of the two records of \<open>a.prof\<close> the
  removal by the path \<open>a.prof\<close> takes the first, and the walker still yields the second,
  which the key matches.
\<close>

theorem remove_from_index_first_matches_counterexample:
  "map_sum id fst (remove_from_index example_externals
        (Some (index_image example_externals 2 2 [entry_a, entry_a_later])) [''a.prof''])
     = Inr (Some (index_image example_externals 2 1 [entry_a_later]))
   \<and> walk_index example_externals (open_handle (index_image example_externals 2 1 [entry_a_later]))
     = ([entry_a_later\<lparr>offset := 12\<rparr>], Exhausted)
   \<and> lookup_function example_externals ''a.prof'' (entry_a_later\<lparr>offset := 12\<rparr>)"
proof -
  have "walk_index example_externals
      (open_handle (index_image example_externals 2 (length [entry_a_later]) [entry_a_later]))
    = (placed example_externals 12 [entry_a_later], Exhausted)"
    by (rule walk_index_consistent) (simp_all add: extended_examples)
  then have 1: "walk_index example_externals
      (open_handle (index_image example_externals 2 1 [entry_a_later]))
    = ([entry_a_later\<lparr>offset := 12\<rparr>], Exhausted)"
    by simp
  have 2: "lookup_function example_externals ''a.prof'' (entry_a_later\<lparr>offset := 12\<rparr>)"
    by (simp add: example_lookup example_paths)
  from remove_first_match_only 1 2 show ?thesis
    by (intro conjI)
qed

text \<open>
  C6 fails on the code. A file of version 1 with one record, and \<open>remove_from_index\<close> with
  a key that matches nothing: the record is written again, now with the fields of the
  extended entry, and the version of the header is still 1, not \<open>INDEX_VERSION\<close>.
  \<open>remove_from_index\<close> does not call \<open>update_index_version\<close>, which \<open>write_entry_to_index\<close>
  does.
\<close>

theorem remove_from_index_keeps_old_version:
  "format_version (legacy_image example_externals 1 [legacy_a]) = 1
   \<and> map_sum id fst (remove_from_index example_externals
        (Some (legacy_image example_externals 1 [legacy_a])) [''b.prof''])
     = Inr (Some (INDEX_MAGIC_PREFIX @ le32 1 @ le32 1
         @ extended_image example_externals (upgraded example_externals 12 legacy_a)))
   \<and> format_version (INDEX_MAGIC_PREFIX @ le32 1 @ le32 1
         @ extended_image example_externals (upgraded example_externals 12 legacy_a)) = 1
   \<and> INDEX_VERSION = 2"
proof -
  have 1: "format_version (legacy_image example_externals 1 [legacy_a]) = 1"
    unfolding legacy_image_def by (rule format_version_header) simp
  have 2: "format_version (INDEX_MAGIC_PREFIX @ le32 1 @ le32 1
         @ extended_image example_externals (upgraded example_externals 12 legacy_a)) = 1"
    by (rule format_version_header) simp
  from 1 remove_from_legacy 2 INDEX_VERSION_def show ?thesis
    by (intro conjI)
qed



end
